theory Spec2Isabelle
  imports Complex_Main "HOL-Library.Signed_Division" "HOL-Library.Log_Nat"
begin

section \<open>Data model (types.ts)\<close>

text \<open>
  JavaScript numbers are modelled as follows: quantities the code only ever adds,
  compares and indexes with (note numbers, octaves, step indices, MIDI bytes) are
  \<open>int\<close>; times, frequencies and knob values are \<open>real\<close>, and arithmetic on them is
  exact. Where the rounding of the machine matters, in the running sum of the cursor,
  the operations are also given rounded to double precision (\<open>f64\<close>, \<open>nextNote_f64\<close>).

  The field \<open>note\<close> of a step is called \<open>step_note\<close> (\<open>note\<close> is a keyword of the proof
  language).
\<close>

record Step =
  active :: bool
  step_note :: int
  octave :: int
  slide :: bool
  accent :: bool

datatype Waveform = sawtooth | square

record SynthParams =
  cutoff :: real
  resonance :: real
  envMod :: real
  decay :: real
  accentLevel :: real
  tempo :: real
  waveform :: Waveform
  volume :: real

datatype PlayState = STOPPED | PLAYING


section \<open>Double precision\<close>

text \<open>
  A JavaScript number is an IEEE 754 double, and an arithmetic operation yields the double
  nearest to the exact result, a tie going to the double whose significand is even.
  \<open>f64 x\<close> is that double for a real \<open>x\<close>: with \<open>2 ^ e \<le> \<bar>x\<bar> < 2 ^ (e + 1)\<close> the doubles
  around \<open>x\<close> are the multiples of \<open>2 ^ (e - 52)\<close> (53 significant bits), and the
  multiples of \<open>2 ^ - 1074\<close> below the normal range. Infinities are not modelled: the rule
  is applied whatever the magnitude, and where it yields \<open>2 ^ 1024\<close> or more the machine
  has \<open>Infinity\<close>.
\<close>

definition pow2 :: "int \<Rightarrow> real" where
  "pow2 e = (if 0 \<le> e then 2 ^ nat e else 1 / 2 ^ nat (- e))"

text \<open>The exponent \<open>e\<close> with \<open>2 ^ e \<le> x < 2 ^ (e + 1)\<close>, for a positive \<open>x\<close>.\<close>

definition f64_exponent :: "real \<Rightarrow> int" where
  "f64_exponent x = (if 1 \<le> x then bitlen \<lfloor>x\<rfloor> - 1 else - bitlen (\<lceil>1 / x\<rceil> - 1))"

definition round_half_even :: "real \<Rightarrow> int" where
  "round_half_even r =
     (let f = \<lfloor>r\<rfloor> in
      if r - of_int f < 1 / 2 then f
      else if 1 / 2 < r - of_int f then f + 1
      else if even f then f else f + 1)"

definition f64 :: "real \<Rightarrow> real" where
  "f64 x =
     (if x = 0 then 0
      else let q = max (f64_exponent \<bar>x\<bar> - 52) (- 1074)
           in sgn x * of_int (round_half_even (\<bar>x\<bar> / pow2 q)) * pow2 q)"


section \<open>The audio engine (services/audioEngine)\<close>

subsection \<open>Automation timelines of the rendering backend\<close>

text \<open>
  The engine talks to the browser's audio graph, which is not part of the repository.
  Of an automatable parameter the model keeps what the engine's calls put there: the
  directly assigned value and the timeline of scheduled automation events, ordered by
  event time, an event scheduled later standing after the events of the same time.
  \<open>cancelScheduledValues t\<close> removes every event whose time is at or after \<open>t\<close>.
  The validation the backend performs on its arguments is not modelled.
\<close>

datatype automation =
    SetValueAtTime real real
  | LinearRampToValueAtTime real real
  | ExponentialRampToValueAtTime real real
  | SetTargetAtTime real real real

fun event_time :: "automation \<Rightarrow> real" where
  "event_time (SetValueAtTime v t) = t"
| "event_time (LinearRampToValueAtTime v t) = t"
| "event_time (ExponentialRampToValueAtTime v t) = t"
| "event_time (SetTargetAtTime v t c) = t"

record AudioParam =
  param_value :: real
  events :: "automation list"

definition insert_event :: "automation \<Rightarrow> automation list \<Rightarrow> automation list" where
  "insert_event e es =
     filter (\<lambda>x. event_time x \<le> event_time e) es @ e # filter (\<lambda>x. event_time e < event_time x) es"

definition schedule :: "automation \<Rightarrow> AudioParam \<Rightarrow> AudioParam" where
  "schedule e p = p\<lparr>events := insert_event e (events p)\<rparr>"

definition cancelScheduledValues :: "real \<Rightarrow> AudioParam \<Rightarrow> AudioParam" where
  "cancelScheduledValues t p = p\<lparr>events := filter (\<lambda>x. event_time x < t) (events p)\<rparr>"

text \<open>The events of a timeline that lie at or after a given time.\<close>

definition events_from :: "real \<Rightarrow> AudioParam \<Rightarrow> automation list" where
  "events_from t p = filter (\<lambda>x. t \<le> event_time x) (events p)"

text \<open>
  The last event of a timeline at or before a given time. When its time is that very
  time and it sets a value or ends a ramp, its value is the value the parameter has then.
\<close>

definition last_event_upto :: "real \<Rightarrow> AudioParam \<Rightarrow> automation option" where
  "last_event_upto t p =
     (let es = filter (\<lambda>x. event_time x \<le> t) (events p)
      in if es = [] then None else Some (last es))"

subsection \<open>Engine state\<close>

datatype ContextState = suspended | running

record OscillatorNode =
  osc_id :: nat
  osc_type :: "Waveform option"
  osc_start :: real
  frequency :: AudioParam

text \<open>
  \<open>ctx_created\<close> counts the oscillators the context has created so far and
  \<open>ctx_sounding\<close> lists those that were started and not yet stopped; the field
  \<open>osc\<close> is the engine's own reference.
\<close>

record AudioEngine =
  ctx_state :: ContextState
  ctx_currentTime :: real
  ctx_created :: nat
  ctx_sounding :: "nat list"
  masterGain_gain :: AudioParam
  osc :: "OscillatorNode option"
  filter_frequency :: AudioParam
  filter_Q :: AudioParam
  ampGain_gain :: AudioParam
  isPlaying :: bool

definition new_AudioEngine :: AudioEngine where
  "new_AudioEngine =
     \<lparr>ctx_state = suspended, ctx_currentTime = 0, ctx_created = 0, ctx_sounding = [],
      masterGain_gain = \<lparr>param_value = 0.5, events = []\<rparr>,
      osc = None,
      filter_frequency = \<lparr>param_value = 350, events = []\<rparr>,
      filter_Q = \<lparr>param_value = 1, events = []\<rparr>,
      ampGain_gain = \<lparr>param_value = 0, events = []\<rparr>,
      isPlaying = False\<rparr>"

definition resume :: "AudioEngine \<Rightarrow> AudioEngine" where
  "resume eng = (if ctx_state eng = suspended then eng\<lparr>ctx_state := running\<rparr> else eng)"

subsection \<open>scheduleStep\<close>

text \<open>
  \<open>scheduleStep\<close> is a straight line of calls on the audio graph. The model first lists
  the calls in program order (\<open>scheduleStep_calls\<close>), then runs them on the engine.
\<close>

datatype param_ref = OscFrequency | FilterFrequency | FilterQ | AmpGain

datatype engine_call =
    EnsureOscillator real
  | SetOscType Waveform
  | Schedule param_ref automation
  | Cancel param_ref real

definition midi_frequency :: "int \<Rightarrow> real" where
  "midi_frequency m = 440 * 2 powr ((real_of_int m - 69) / 12)"

definition baseMidi :: "Step \<Rightarrow> int" where
  "baseMidi step = 36 + step_note step + octave step * 12"

definition baseCutoff :: "SynthParams \<Rightarrow> real" where
  "baseCutoff params = (cutoff params / 100) * 8000 + 50"

definition resValue :: "SynthParams \<Rightarrow> real" where
  "resValue params = (resonance params / 100) * 20"

definition accentIntensity :: "SynthParams \<Rightarrow> real" where
  "accentIntensity params = accentLevel params / 100"

definition activeVol :: "Step \<Rightarrow> SynthParams \<Rightarrow> real" where
  "activeVol step params =
     (if accent step then min 1 (volume params / 100 + 0.3 * accentIntensity params)
      else volume params / 100)"

definition activeEnvMod :: "Step \<Rightarrow> SynthParams \<Rightarrow> real" where
  "activeEnvMod step params =
     (if accent step then min 1 (envMod params / 100 + 0.5 * accentIntensity params)
      else envMod params / 100)"

definition activeDecay :: "Step \<Rightarrow> SynthParams \<Rightarrow> real" where
  "activeDecay step params =
     (if accent step then max 0.1 (decay params / 100 * 0.5) else decay params / 100)"

definition stepQ :: "Step \<Rightarrow> SynthParams \<Rightarrow> real" where
  "stepQ step params =
     (if accent step then resValue params + 10 * accentIntensity params else resValue params)"

definition peakFilter :: "Step \<Rightarrow> SynthParams \<Rightarrow> real" where
  "peakFilter step params = min 20000 (baseCutoff params + activeEnvMod step params * 10000)"

definition decayTime :: "Step \<Rightarrow> SynthParams \<Rightarrow> real" where
  "decayTime step params = 0.1 + activeDecay step params * 2.0"

definition scheduleStep_calls ::
  "Step \<Rightarrow> Step option \<Rightarrow> real \<Rightarrow> SynthParams \<Rightarrow> real \<Rightarrow> engine_call list" where
  "scheduleStep_calls step nextStep time params stepDuration =
     (if \<not> active step then [Schedule AmpGain (SetTargetAtTime 0 time 0.01)]
      else
        [EnsureOscillator time,
         SetOscType (waveform params),
         Schedule OscFrequency (SetValueAtTime (midi_frequency (baseMidi step)) time)]
        @ (case nextStep of
             None \<Rightarrow> []
           | Some n \<Rightarrow>
               if slide step \<and> active n
               then [Schedule OscFrequency
                       (LinearRampToValueAtTime (midi_frequency (baseMidi n)) (time + stepDuration))]
               else [])
        @ [Schedule FilterQ (SetValueAtTime (stepQ step params) time),
           Cancel AmpGain time,
           Schedule AmpGain (SetValueAtTime (activeVol step params) time),
           Cancel FilterFrequency time,
           Schedule FilterFrequency (SetValueAtTime (baseCutoff params) time),
           Schedule FilterFrequency (LinearRampToValueAtTime (peakFilter step params) (time + 0.01)),
           Schedule FilterFrequency
             (ExponentialRampToValueAtTime (baseCutoff params) (time + decayTime step params))]
        @ (if \<not> slide step
           then [Schedule AmpGain (SetValueAtTime (activeVol step params) (time + stepDuration * 0.8)),
                 Schedule AmpGain (LinearRampToValueAtTime 0 (time + stepDuration * 0.8 + 0.02))]
           else []))"

text \<open>The calls of a list that go to one parameter, in program order.\<close>

fun call_param :: "engine_call \<Rightarrow> param_ref option" where
  "call_param (Schedule r e) = Some r"
| "call_param (Cancel r t) = Some r"
| "call_param (EnsureOscillator t) = None"
| "call_param (SetOscType w) = None"

definition calls_on :: "param_ref \<Rightarrow> engine_call list \<Rightarrow> engine_call list" where
  "calls_on r cs = filter (\<lambda>c. call_param c = Some r) cs"

definition on_param :: "param_ref \<Rightarrow> (AudioParam \<Rightarrow> AudioParam) \<Rightarrow> AudioEngine \<Rightarrow> AudioEngine" where
  "on_param r f eng =
     (case r of
        OscFrequency \<Rightarrow>
          (case osc eng of
             None \<Rightarrow> eng
           | Some n \<Rightarrow> eng\<lparr>osc := Some (n\<lparr>frequency := f (frequency n)\<rparr>)\<rparr>)
      | FilterFrequency \<Rightarrow> eng\<lparr>filter_frequency := f (filter_frequency eng)\<rparr>
      | FilterQ \<Rightarrow> eng\<lparr>filter_Q := f (filter_Q eng)\<rparr>
      | AmpGain \<Rightarrow> eng\<lparr>ampGain_gain := f (ampGain_gain eng)\<rparr>)"

text \<open>
  A fresh oscillator has the backend's default frequency of 440 Hz and no automation.
  \<open>EnsureOscillator\<close> is the source's \<open>if (!this.osc) { create; start; connect }\<close>.
\<close>

definition createOscillator :: "real \<Rightarrow> AudioEngine \<Rightarrow> OscillatorNode" where
  "createOscillator time eng =
     \<lparr>osc_id = ctx_created eng, osc_type = None, osc_start = time,
      frequency = \<lparr>param_value = 440, events = []\<rparr>\<rparr>"

fun exec_call :: "engine_call \<Rightarrow> AudioEngine \<Rightarrow> AudioEngine" where
  "exec_call (EnsureOscillator time) eng =
     (case osc eng of
        Some n \<Rightarrow> eng
      | None \<Rightarrow>
          eng\<lparr>osc := Some (createOscillator time eng),
               ctx_created := Suc (ctx_created eng),
               ctx_sounding := ctx_sounding eng @ [ctx_created eng]\<rparr>)"
| "exec_call (SetOscType w) eng =
     (case osc eng of
        None \<Rightarrow> eng
      | Some n \<Rightarrow> eng\<lparr>osc := Some (n\<lparr>osc_type := Some w\<rparr>)\<rparr>)"
| "exec_call (Schedule r e) eng = on_param r (schedule e) eng"
| "exec_call (Cancel r t) eng = on_param r (cancelScheduledValues t) eng"

definition run_calls :: "engine_call list \<Rightarrow> AudioEngine \<Rightarrow> AudioEngine" where
  "run_calls cs eng = foldl (\<lambda>e c. exec_call c e) eng cs"

definition scheduleStep ::
  "Step \<Rightarrow> Step option \<Rightarrow> real \<Rightarrow> SynthParams \<Rightarrow> real \<Rightarrow> AudioEngine \<Rightarrow> AudioEngine" where
  "scheduleStep step nextStep time params stepDuration eng =
     run_calls (scheduleStep_calls step nextStep time params stepDuration) eng"

text \<open>\<open>AudioEngine.stop\<close>: release the oscillator, clear and zero the amplitude gate.\<close>

definition stop :: "AudioEngine \<Rightarrow> AudioEngine" where
  "stop eng =
     (let eng1 = (case osc eng of
                    None \<Rightarrow> eng
                  | Some n \<Rightarrow> eng\<lparr>osc := None,
                                    ctx_sounding := removeAll (osc_id n) (ctx_sounding eng)\<rparr>)
      in eng1\<lparr>ampGain_gain :=
                (cancelScheduledValues (ctx_currentTime eng1) (ampGain_gain eng1))\<lparr>param_value := 0\<rparr>\<rparr>)"

text \<open>The timeline of a parameter of the engine (the oscillator's frequency when there is one).\<close>

definition param_of :: "param_ref \<Rightarrow> AudioEngine \<Rightarrow> AudioParam option" where
  "param_of r eng =
     (case r of
        OscFrequency \<Rightarrow> map_option frequency (osc eng)
      | FilterFrequency \<Rightarrow> Some (filter_frequency eng)
      | FilterQ \<Rightarrow> Some (filter_Q eng)
      | AmpGain \<Rightarrow> Some (ampGain_gain eng))"

section \<open>The MIDI service (services/midiService.ts)\<close>

text \<open>
  \<open>midiAccess\<close> is the list of the output ports' ids when access was granted.
  A message that is sent is appended to the wire: the port's id and the bytes, oldest first.
  An empty \<open>selectedOutputId\<close> is falsy in the source, as \<open>null\<close> is.
\<close>

record MidiService =
  midiAccess :: "string list option"
  selectedOutputId :: "string option"

type_synonym wire = "(string \<times> int list) list"

definition selected_output :: "MidiService \<Rightarrow> string option" where
  "selected_output svc =
     (case midiAccess svc of
        None \<Rightarrow> None
      | Some outs \<Rightarrow>
          (case selectedOutputId svc of
             None \<Rightarrow> None
           | Some i \<Rightarrow> if i = [] then None else if i \<in> set outs then Some i else None))"

definition setOutput :: "string \<Rightarrow> MidiService \<Rightarrow> MidiService" where
  "setOutput i svc = svc\<lparr>selectedOutputId := Some i\<rparr>"

definition sendNoteOn :: "int \<Rightarrow> int \<Rightarrow> MidiService \<Rightarrow> wire \<Rightarrow> wire" where
  "sendNoteOn n velocity svc w =
     (case selected_output svc of
        None \<Rightarrow> w
      | Some out \<Rightarrow> w @ [(out, [0x90, max 0 (min 127 n), max 0 (min 127 velocity)])])"

definition sendNoteOff :: "int \<Rightarrow> MidiService \<Rightarrow> wire \<Rightarrow> wire" where
  "sendNoteOff n svc w =
     (case selected_output svc of
        None \<Rightarrow> w
      | Some out \<Rightarrow> w @ [(out, [0x80, max 0 (min 127 n), 0])])"

definition stopAll :: "MidiService \<Rightarrow> wire \<Rightarrow> wire" where
  "stopAll svc w =
     (case selected_output svc of
        None \<Rightarrow> w
      | Some out \<Rightarrow> w @ map (\<lambda>i. (out, [0x80, int i, 0])) [0..<128])"


section \<open>The sequencer (App.tsx)\<close>

subsection \<open>State, timers and the published snapshots\<close>

text \<open>
  A pending \<open>setTimeout\<close> is a timer: its id, the time it is due and the callback, with
  the values the callback's closure captured. One clock is used for the timers and for the
  audio context (\<open>ctx_currentTime\<close>), in seconds; timer ids start at 1, and a negative
  delay counts as zero. The log shown on screen (\<open>midiLogs\<close>) is not modelled.
\<close>

datatype callback =
    SchedulerTick
  | SetCurrentStep int
  | MidiNoteOn int int Step real
  | MidiNoteOff int
  | LegacySchedulerTick SynthParams "Step list"

record timer =
  timer_id :: nat
  due :: real
  timer_cb :: callback

record App =
  params :: SynthParams
  pattern :: "Step list"
  playState :: PlayState
  currentStep :: int
  nextNoteTime :: real
  currentStepRef :: int
  timerID :: "nat option"
  isPlayingRef :: bool
  paramsRef :: SynthParams
  patternRef :: "Step list"
  audioEngine :: AudioEngine
  midiService :: MidiService
  midi_out :: wire
  timers :: "timer list"
  next_timer_id :: nat

datatype error = TypeError

text \<open>
  The constants of the module \<open>constants\<close>; in the sources its text follows that of
  \<open>components/Knob.tsx\<close>.
\<close>

definition STEPS_PER_BAR :: int where
  "STEPS_PER_BAR = 16"

definition DEFAULT_TEMPO :: real where
  "DEFAULT_TEMPO = 120"

definition DEFAULT_PATTERN :: "Step list" where
  "DEFAULT_PATTERN =
     replicate (nat STEPS_PER_BAR)
       \<lparr>active = False, step_note = 0, octave = 0, slide = False, accent = False\<rparr>"

definition INITIAL_PARAMS :: SynthParams where
  "INITIAL_PARAMS =
     \<lparr>cutoff = 50, resonance = 60, envMod = 75, decay = 40, accentLevel = 80, tempo = 120,
      waveform = sawtooth, volume = 75\<rparr>"

text \<open>The constants of the scheduler, in \<open>App\<close>.\<close>

definition SCHEDULE_AHEAD_TIME :: real where
  "SCHEDULE_AHEAD_TIME = 0.1"

definition LOOKAHEAD :: real where
  "LOOKAHEAD = 25.0"

text \<open>The initial state of the component, for given \<open>INITIAL_PARAMS\<close> and \<open>DEFAULT_PATTERN\<close>.\<close>

definition initial_App :: "SynthParams \<Rightarrow> Step list \<Rightarrow> App" where
  "initial_App p0 pat0 =
     \<lparr>params = p0, pattern = pat0, playState = STOPPED, currentStep = - 1,
      nextNoteTime = 0, currentStepRef = 0, timerID = None, isPlayingRef = False,
      paramsRef = p0, patternRef = pat0,
      audioEngine = new_AudioEngine,
      midiService = \<lparr>midiAccess = None, selectedOutputId = None\<rparr>,
      midi_out = [], timers = [], next_timer_id = 1\<rparr>"

definition now :: "App \<Rightarrow> real" where
  "now s = ctx_currentTime (audioEngine s)"

definition setTimeout :: "callback \<Rightarrow> real \<Rightarrow> App \<Rightarrow> nat \<times> App" where
  "setTimeout cb delayMs s =
     (next_timer_id s,
      s\<lparr>timers := timers s @ [\<lparr>timer_id = next_timer_id s,
                                due = now s + max 0 delayMs / 1000,
                                timer_cb = cb\<rparr>],
        next_timer_id := Suc (next_timer_id s)\<rparr>)"

definition clearTimeout :: "nat \<Rightarrow> App \<Rightarrow> App" where
  "clearTimeout i s = s\<lparr>timers := filter (\<lambda>t. timer_id t \<noteq> i) (timers s)\<rparr>"

text \<open>
  The editor: \<open>setParams\<close> and \<open>setPattern\<close> change the component's state; the two
  effects that follow a render publish the state to the refs.
\<close>

definition setParams :: "SynthParams \<Rightarrow> App \<Rightarrow> App" where
  "setParams p s = s\<lparr>params := p\<rparr>"

definition setPattern :: "Step list \<Rightarrow> App \<Rightarrow> App" where
  "setPattern pat s = s\<lparr>pattern := pat\<rparr>"

definition sync_refs :: "App \<Rightarrow> App" where
  "sync_refs s = s\<lparr>paramsRef := params s, patternRef := pattern s\<rparr>"

text \<open>Reading an array at an index: \<open>undefined\<close> outside the array.\<close>

definition at_index :: "'a list \<Rightarrow> int \<Rightarrow> 'a option" where
  "at_index xs i = (if 0 \<le> i \<and> nat i < length xs then Some (xs ! nat i) else None)"

subsection \<open>nextNote and scheduleNote\<close>

definition secondsPerStep :: "SynthParams \<Rightarrow> real" where
  "secondsPerStep p = (60.0 / tempo p) / 4"

text \<open>The local \<open>duration\<close> of \<open>scheduleNote\<close>.\<close>

definition duration :: "SynthParams \<Rightarrow> real" where
  "duration p = (60.0 / tempo p) / 4"

text \<open>\<open>nextNote\<close> in exact arithmetic, as the look-ahead loop below uses it.\<close>

definition nextNote :: "App \<Rightarrow> App" where
  "nextNote s =
     s\<lparr>nextNoteTime := nextNoteTime s + secondsPerStep (paramsRef s),
       currentStepRef := (currentStepRef s + 1) smod STEPS_PER_BAR\<rparr>"

text \<open>
  \<open>nextNote\<close> as the machine computes it: the quotient \<open>60.0 / tempo\<close>, its division by 4
  and the sum are each rounded to a double. The index is a whole number and is not
  rounded.
\<close>

definition nextNote_f64 :: "App \<Rightarrow> App" where
  "nextNote_f64 s =
     (let secondsPerBeat = f64 (60.0 / tempo (paramsRef s));
          perStep = f64 (secondsPerBeat / 4)
      in s\<lparr>nextNoteTime := f64 (nextNoteTime s + perStep),
           currentStepRef := (currentStepRef s + 1) smod STEPS_PER_BAR\<rparr>)"

text \<open>
  The body of \<open>scheduleNote\<close>, for the values \<open>currentParams\<close> and \<open>currentPattern\<close> it
  works with. A step index outside the pattern reads \<open>undefined\<close>, and the engine's access
  to its \<open>active\<close> field throws.
\<close>

definition scheduleNote_body ::
  "SynthParams \<Rightarrow> Step list \<Rightarrow> int \<Rightarrow> real \<Rightarrow> App \<Rightarrow> error + App" where
  "scheduleNote_body currentParams currentPattern stepNumber time s =
     (let s1 = snd (setTimeout (SetCurrentStep stepNumber) ((time - now s) * 1000) s);
          nextStepIdx = (stepNumber + 1) smod STEPS_PER_BAR;
          nextStep = at_index currentPattern nextStepIdx;
          dur = duration currentParams
      in case at_index currentPattern stepNumber of
           None \<Rightarrow> Inl TypeError
         | Some step \<Rightarrow>
             (let s2 = s1\<lparr>audioEngine :=
                           scheduleStep step nextStep time currentParams dur (audioEngine s1)\<rparr>
              in if active step
                 then (let baseNote = 36 + step_note step + octave step * 12;
                           velocity = (if accent step then 127 else 100);
                           delayMs = max 0 ((time - now s2) * 1000)
                       in Inr (snd (setTimeout (MidiNoteOn baseNote velocity step dur) delayMs s2)))
                 else Inr s2))"

text \<open>\<open>scheduleNote\<close> of App.tsx reads the refs when it is called.\<close>

definition scheduleNote :: "int \<Rightarrow> real \<Rightarrow> App \<Rightarrow> error + App" where
  "scheduleNote stepNumber time s = scheduleNote_body (paramsRef s) (patternRef s) stepNumber time s"

subsection \<open>The look-ahead loop, start and stop\<close>

text \<open>
  The \<open>while\<close> loop of \<open>scheduler\<close> runs on fuel: \<open>None\<close> is the loop that has not
  returned within the given number of iterations.
\<close>

fun scheduler_loop :: "nat \<Rightarrow> App \<Rightarrow> (error + App) option" where
  "scheduler_loop 0 s = None"
| "scheduler_loop (Suc k) s =
     (if nextNoteTime s < now s + SCHEDULE_AHEAD_TIME
      then (case scheduleNote (currentStepRef s) (nextNoteTime s) s of
              Inl e \<Rightarrow> Some (Inl e)
            | Inr s1 \<Rightarrow> scheduler_loop k (nextNote s1))
      else Some (Inr s))"

definition rearm :: "callback \<Rightarrow> App \<Rightarrow> App" where
  "rearm cb s =
     (if isPlayingRef s
      then (case setTimeout cb LOOKAHEAD s of (i, s1) \<Rightarrow> s1\<lparr>timerID := Some i\<rparr>)
      else s)"

definition scheduler :: "nat \<Rightarrow> App \<Rightarrow> (error + App) option" where
  "scheduler fuel s = map_option (map_sum id (rearm SchedulerTick)) (scheduler_loop fuel s)"

definition startSequencer :: "nat \<Rightarrow> App \<Rightarrow> (error + App) option" where
  "startSequencer fuel s =
     (if playState s = PLAYING then Some (Inr s)
      else map_option (map_sum id (\<lambda>s2. s2\<lparr>playState := PLAYING\<rparr>))
             (scheduler fuel
                (s\<lparr>audioEngine := resume (audioEngine s),
                   isPlayingRef := True,
                   currentStepRef := 0,
                   nextNoteTime := ctx_currentTime (resume (audioEngine s)) + 0.05\<rparr>)))"

definition stopSequencer :: "App \<Rightarrow> App" where
  "stopSequencer s =
     (let s1 = s\<lparr>isPlayingRef := False\<rparr>;
          s2 = (case timerID s1 of
                  None \<Rightarrow> s1
                | Some i \<Rightarrow> if i = 0 then s1 else clearTimeout i s1)
      in s2\<lparr>audioEngine := stop (audioEngine s2),
            midi_out := stopAll (midiService s2) (midi_out s2),
            playState := STOPPED,
            currentStep := - 1\<rparr>)"

subsection \<open>The older variant of the component (src/unnamed/part\_000)\<close>

text \<open>
  In this variant \<open>nextNote\<close> and \<open>scheduleNote\<close> read \<open>params\<close> and \<open>pattern\<close> of the
  render whose \<open>startSequencer\<close> started the loop: the closure that is re-armed on every
  tick keeps them. The callback \<open>LegacySchedulerTick\<close> carries these two values.
\<close>

definition legacy_nextNote :: "SynthParams \<Rightarrow> App \<Rightarrow> App" where
  "legacy_nextNote p s =
     s\<lparr>nextNoteTime := nextNoteTime s + (60.0 / tempo p) / 4,
       currentStepRef := (currentStepRef s + 1) smod STEPS_PER_BAR\<rparr>"

fun legacy_scheduler_loop :: "nat \<Rightarrow> SynthParams \<Rightarrow> Step list \<Rightarrow> App \<Rightarrow> (error + App) option" where
  "legacy_scheduler_loop 0 p pat s = None"
| "legacy_scheduler_loop (Suc k) p pat s =
     (if nextNoteTime s < now s + SCHEDULE_AHEAD_TIME
      then (case scheduleNote_body p pat (currentStepRef s) (nextNoteTime s) s of
              Inl e \<Rightarrow> Some (Inl e)
            | Inr s1 \<Rightarrow> legacy_scheduler_loop k p pat (legacy_nextNote p s1))
      else Some (Inr s))"

definition legacy_scheduler :: "nat \<Rightarrow> SynthParams \<Rightarrow> Step list \<Rightarrow> App \<Rightarrow> (error + App) option" where
  "legacy_scheduler fuel p pat s =
     map_option (map_sum id (rearm (LegacySchedulerTick p pat))) (legacy_scheduler_loop fuel p pat s)"

definition legacy_startSequencer :: "nat \<Rightarrow> App \<Rightarrow> (error + App) option" where
  "legacy_startSequencer fuel s =
     (if playState s = PLAYING then Some (Inr s)
      else map_option (map_sum id (\<lambda>s2. s2\<lparr>playState := PLAYING\<rparr>))
             (legacy_scheduler fuel (params s) (pattern s)
                (s\<lparr>audioEngine := resume (audioEngine s),
                   isPlayingRef := True,
                   currentStepRef := 0,
                   nextNoteTime := ctx_currentTime (resume (audioEngine s)) + 0.05\<rparr>)))"

subsection \<open>Timers firing\<close>

text \<open>
  A pending timer fires at its due time, or at once when that time has passed; its
  callback then runs to the end. Firing an id that is not pending does nothing.
\<close>

definition run_callback :: "nat \<Rightarrow> callback \<Rightarrow> App \<Rightarrow> (error + App) option" where
  "run_callback fuel cb s =
     (case cb of
        SchedulerTick \<Rightarrow> scheduler fuel s
      | LegacySchedulerTick p pat \<Rightarrow> legacy_scheduler fuel p pat s
      | SetCurrentStep n \<Rightarrow> Some (Inr (s\<lparr>currentStep := n\<rparr>))
      | MidiNoteOn baseNote velocity step dur \<Rightarrow>
          (let s1 = s\<lparr>midi_out := sendNoteOn baseNote velocity (midiService s) (midi_out s)\<rparr>;
               noteLen = (if slide step then dur * 1.05 else dur * 0.7)
           in Some (Inr (snd (setTimeout (MidiNoteOff baseNote) (noteLen * 1000) s1))))
      | MidiNoteOff baseNote \<Rightarrow>
          Some (Inr (s\<lparr>midi_out := sendNoteOff baseNote (midiService s) (midi_out s)\<rparr>)))"

definition advance_clock :: "real \<Rightarrow> App \<Rightarrow> App" where
  "advance_clock t s =
     s\<lparr>audioEngine := (audioEngine s)\<lparr>ctx_currentTime := max (ctx_currentTime (audioEngine s)) t\<rparr>\<rparr>"

definition fire_timer :: "nat \<Rightarrow> nat \<Rightarrow> App \<Rightarrow> (error + App) option" where
  "fire_timer fuel i s =
     (case find (\<lambda>t. timer_id t = i) (timers s) of
        None \<Rightarrow> Some (Inr s)
      | Some t \<Rightarrow> run_callback fuel (timer_cb t) (advance_clock (due t) (clearTimeout i s)))"

subsection \<open>What happens to the component\<close>

text \<open>
  The user starts and stops the sequencer, edits parameters and pattern and selects an
  output port; the browser grants MIDI access, runs the effects that publish the state to
  the refs, lets time pass and fires timers. A run performs such actions one after
  another and ends at the first one that throws or does not return.
\<close>

datatype action =
    StartSequencer
  | StopSequencer
  | TimerFires nat
  | TimePasses real
  | SetParams SynthParams
  | SetPattern "Step list"
  | EffectsRun
  | SelectOutput string
  | MidiGranted "string list"

definition perform :: "nat \<Rightarrow> action \<Rightarrow> App \<Rightarrow> (error + App) option" where
  "perform fuel a s =
     (case a of
        StartSequencer \<Rightarrow> startSequencer fuel s
      | StopSequencer \<Rightarrow> Some (Inr (stopSequencer s))
      | TimerFires i \<Rightarrow> fire_timer fuel i s
      | TimePasses t \<Rightarrow> Some (Inr (advance_clock t s))
      | SetParams p \<Rightarrow> Some (Inr (setParams p s))
      | SetPattern pat \<Rightarrow> Some (Inr (setPattern pat s))
      | EffectsRun \<Rightarrow> Some (Inr (sync_refs s))
      | SelectOutput i \<Rightarrow> Some (Inr (s\<lparr>midiService := setOutput i (midiService s)\<rparr>))
      | MidiGranted outs \<Rightarrow>
          Some (Inr (s\<lparr>midiService := (midiService s)\<lparr>midiAccess := Some outs\<rparr>\<rparr>)))"

definition and_then ::
  "(error + App) option \<Rightarrow> (App \<Rightarrow> (error + App) option) \<Rightarrow> (error + App) option" where
  "and_then r f = (case r of None \<Rightarrow> None | Some (Inl e) \<Rightarrow> Some (Inl e) | Some (Inr s) \<Rightarrow> f s)"

fun run :: "nat \<Rightarrow> action list \<Rightarrow> App \<Rightarrow> (error + App) option" where
  "run fuel [] s = Some (Inr s)"
| "run fuel (a # as) s = and_then (perform fuel a s) (run fuel as)"


section \<open>Notions used in the properties\<close>

text \<open>The timeline of a parameter of the engine; empty while there is no oscillator.\<close>

definition timeline :: "param_ref \<Rightarrow> AudioEngine \<Rightarrow> automation list" where
  "timeline r eng = (case param_of r eng of None \<Rightarrow> [] | Some p \<Rightarrow> events p)"

text \<open>The automation events one trigger schedules on a parameter, in program order.\<close>

fun scheduled_event :: "engine_call \<Rightarrow> automation list" where
  "scheduled_event (Schedule r e) = [e]"
| "scheduled_event (Cancel r t) = []"
| "scheduled_event (EnsureOscillator t) = []"
| "scheduled_event (SetOscType w) = []"

definition scheduled_on :: "param_ref \<Rightarrow> engine_call list \<Rightarrow> automation list" where
  "scheduled_on r cs = concat (map scheduled_event (calls_on r cs))"





text \<open>
  The oscillators that sound are exactly the one the engine refers to, if any.
\<close>

definition voice_inv :: "AudioEngine \<Rightarrow> bool" where
  "voice_inv eng =
     (ctx_sounding eng = (case osc eng of None \<Rightarrow> [] | Some n \<Rightarrow> [osc_id n]))"

text \<open>Pending timers by kind, and the Note On messages on the wire.\<close>

fun is_tick :: "callback \<Rightarrow> bool" where
  "is_tick SchedulerTick = True"
| "is_tick (LegacySchedulerTick p pat) = True"
| "is_tick (SetCurrentStep n) = False"
| "is_tick (MidiNoteOn n v step d) = False"
| "is_tick (MidiNoteOff n) = False"

fun is_note_on_timer :: "callback \<Rightarrow> bool" where
  "is_note_on_timer (MidiNoteOn n v step d) = True"
| "is_note_on_timer SchedulerTick = False"
| "is_note_on_timer (LegacySchedulerTick p pat) = False"
| "is_note_on_timer (SetCurrentStep n) = False"
| "is_note_on_timer (MidiNoteOff n) = False"

definition pending_ticks :: "App \<Rightarrow> timer list" where
  "pending_ticks s = filter (\<lambda>t. is_tick (timer_cb t)) (timers s)"

definition pending_note_ons :: "App \<Rightarrow> timer list" where
  "pending_note_ons s = filter (\<lambda>t. is_note_on_timer (timer_cb t)) (timers s)"

definition note_on_messages :: "wire \<Rightarrow> wire" where
  "note_on_messages w = filter (\<lambda>m. take 1 (snd m) = [0x90]) w"

text \<open>
  The scheduler's bookkeeping: timer ids are positive, every pending tick is the one
  \<open>timerID\<close> refers to, and no tick is pending while the transport is stopped.
\<close>

definition tick_inv :: "App \<Rightarrow> bool" where
  "tick_inv s =
     (0 < next_timer_id s \<and>
      list_all (\<lambda>t. timerID s = Some (timer_id t) \<and> timer_id t \<noteq> 0) (pending_ticks s) \<and>
      (playState s = STOPPED \<longrightarrow> pending_ticks s = []))"

text \<open>The engine with its clock set aside: what is scheduled and which nodes exist.\<close>

definition without_clock :: "AudioEngine \<Rightarrow> AudioEngine" where
  "without_clock eng = eng\<lparr>ctx_currentTime := 0\<rparr>"

text \<open>What holds of every state the component reaches from its initial state.\<close>

definition app_inv :: "App \<Rightarrow> bool" where
  "app_inv s =
     (tick_inv s \<and> voice_inv (audioEngine s) \<and>
      (playState s = STOPPED \<longrightarrow> osc (audioEngine s) = None))"

text \<open>The step index of the cursor is an index into the bar.\<close>

definition index_in_bar :: "App \<Rightarrow> bool" where
  "index_in_bar s = (0 \<le> currentStepRef s \<and> currentStepRef s < STEPS_PER_BAR)"

text \<open>What a run of the look-ahead loop leaves as it was.\<close>

definition loop_frame :: "App \<Rightarrow> App \<Rightarrow> bool" where
  "loop_frame s s' =
     (pending_ticks s' = pending_ticks s \<and> timerID s' = timerID s \<and>
      isPlayingRef s' = isPlayingRef s \<and> playState s' = playState s \<and>
      next_timer_id s \<le> next_timer_id s' \<and>
      midi_out s' = midi_out s \<and> midiService s' = midiService s)"

text \<open>
  Note On messages already on the wire plus Note On timers still pending: an upper bound
  on the Note On messages the wire can hold once no further step is enqueued.
\<close>

definition note_on_budget :: "App \<Rightarrow> nat" where
  "note_on_budget s = length (note_on_messages (midi_out s)) + length (pending_note_ons s)"


section \<open>Concrete inputs\<close>

definition demo_params :: SynthParams where
  "demo_params = \<lparr>cutoff = 50, resonance = 50, envMod = 50, decay = 50, accentLevel = 50,
                   tempo = 120, waveform = sawtooth, volume = 80\<rparr>"

definition note_step :: Step where
  "note_step = \<lparr>active = True, step_note = 0, octave = 0, slide = False, accent = False\<rparr>"

definition rest_step :: Step where
  "rest_step = \<lparr>active = False, step_note = 0, octave = 0, slide = False, accent = False\<rparr>"

definition slide_step :: Step where
  "slide_step = \<lparr>active = True, step_note = 7, octave = 1, slide = True, accent = True\<rparr>"

definition slide_rest_step :: Step where
  "slide_rest_step = \<lparr>active = False, step_note = 7, octave = 1, slide = True, accent = False\<rparr>"

text \<open>The pattern the component sets up when it mounts: every second step sounds C2.\<close>

definition demo_pattern :: "Step list" where
  "demo_pattern =
     [note_step, rest_step, note_step, rest_step, note_step, rest_step, note_step, rest_step,
      note_step, rest_step, note_step, rest_step, note_step, rest_step, note_step, rest_step]"

definition demo_App :: App where
  "demo_App = (initial_App demo_params demo_pattern)
     \<lparr>midiService := \<lparr>midiAccess = Some [''out-1''], selectedOutputId = Some ''out-1''\<rparr>\<rparr>"

definition silent_pattern :: "Step list" where
  "silent_pattern =
     [rest_step, rest_step, rest_step, rest_step, rest_step, rest_step, rest_step, rest_step,
      rest_step, rest_step, rest_step, rest_step, rest_step, rest_step, rest_step, rest_step]"

text \<open>MIDI access is granted, the port is selected, the sequencer is started.\<close>

definition demo_actions :: "action list" where
  "demo_actions = [MidiGranted [''out-1''], SelectOutput ''out-1'', StartSequencer]"

text \<open>The component after \<open>startSequencer\<close> at time 0, and after an immediate stop.\<close>

definition demo_playing :: App where
  "demo_playing = (case startSequencer 2 demo_App of Some (Inr s) \<Rightarrow> s | _ \<Rightarrow> demo_App)"

definition demo_stopped :: App where
  "demo_stopped = stopSequencer demo_playing"

text \<open>An edit made while the sequencer plays: step 1 becomes a sounding note, the tempo 60.\<close>

definition edited_pattern :: "Step list" where
  "edited_pattern = demo_pattern[1 := slide_step]"

definition edited_params :: SynthParams where
  "edited_params = demo_params\<lparr>tempo := 60\<rparr>"

text \<open>
  The edit is made and published, and the tick that is pending (timer 3) runs at 0.1 s,
  when step 1 comes into the look-ahead window.
\<close>

definition edit_then_tick :: "action list" where
  "edit_then_tick =
     [SetParams edited_params, SetPattern edited_pattern, EffectsRun, TimePasses (1 / 10),
      TimerFires 3]"

text \<open>
  The refs as \<open>startSequencer\<close> sets them when the audio clock is at 0, the sum
  \<open>currentTime + 0.05\<close> taken in double precision: the cursor is the double nearest 0.05.
\<close>

definition f64_started :: App where
  "f64_started =
     (initial_App INITIAL_PARAMS DEFAULT_PATTERN)
       \<lparr>isPlayingRef := True, currentStepRef := 0, nextNoteTime := f64 (0 + f64 0.05)\<rparr>"

text \<open>The engine after a sliding step at time 0 whose ramp ends at 0.125.\<close>

definition slid_engine :: AudioEngine where
  "slid_engine = scheduleStep slide_step (Some note_step) 0 demo_params 0.125 new_AudioEngine"


section \<open>Lemmas about the model\<close>

subsection \<open>Timelines\<close>

lemma filter_upto_insert_same:
  "filter (\<lambda>x. event_time x \<le> event_time e) (insert_event e es) =
     filter (\<lambda>x. event_time x \<le> event_time e) es @ [e]"
  by (simp add: insert_event_def filter_empty_conv)

lemma filter_upto_insert_later:
  "t < event_time e \<Longrightarrow>
   filter (\<lambda>x. event_time x \<le> t) (insert_event e es) = filter (\<lambda>x. event_time x \<le> t) es"
  by (auto simp: insert_event_def filter_empty_conv intro: filter_cong)

lemma last_event_upto_schedule_same:
  "last_event_upto (event_time e) (schedule e p) = Some e"
  by (simp add: last_event_upto_def schedule_def filter_upto_insert_same)

lemma last_event_upto_schedule_later:
  "t < event_time e \<Longrightarrow> last_event_upto t (schedule e p) = last_event_upto t p"
  by (simp add: last_event_upto_def schedule_def filter_upto_insert_later)

lemma events_from_cancel_schedule:
  "events_from t (schedule e (cancelScheduledValues t p)) = (if t \<le> event_time e then [e] else [])"
  by (auto simp: events_from_def schedule_def cancelScheduledValues_def insert_event_def
        filter_empty_conv)

lemma set_events_schedule: "set (events (schedule e p)) = insert e (set (events p))"
  by (auto simp: schedule_def insert_event_def)

subsection \<open>The engine after one trigger, parameter by parameter\<close>

lemma run_calls_append: "run_calls (xs @ ys) eng = run_calls ys (run_calls xs eng)"
  by (simp add: run_calls_def)

lemma run_calls_Cons: "run_calls (c # cs) eng = run_calls cs (exec_call c eng)"
  by (simp add: run_calls_def)

lemma run_calls_Nil: "run_calls [] eng = eng"
  by (simp add: run_calls_def)

lemmas run_calls_simps = run_calls_append run_calls_Cons run_calls_Nil

lemma scheduleStep_inactive:
  "\<not> active step \<Longrightarrow>
   scheduleStep step nx t p d eng =
     eng\<lparr>ampGain_gain := schedule (SetTargetAtTime 0 t 0.01) (ampGain_gain eng)\<rparr>"
  by (simp add: scheduleStep_def scheduleStep_calls_def run_calls_simps on_param_def)

lemma scheduleStep_gain:
  "active step \<Longrightarrow>
   ampGain_gain (scheduleStep step nx t p d eng) =
     (if slide step
      then schedule (SetValueAtTime (activeVol step p) t) (cancelScheduledValues t (ampGain_gain eng))
      else schedule (LinearRampToValueAtTime 0 (t + d * 0.8 + 0.02))
             (schedule (SetValueAtTime (activeVol step p) (t + d * 0.8))
                (schedule (SetValueAtTime (activeVol step p) t)
                   (cancelScheduledValues t (ampGain_gain eng)))))"
  by (simp add: scheduleStep_def scheduleStep_calls_def run_calls_simps on_param_def
           split: option.splits)

lemma scheduleStep_filter_frequency:
  "active step \<Longrightarrow>
   filter_frequency (scheduleStep step nx t p d eng) =
     schedule (ExponentialRampToValueAtTime (baseCutoff p) (t + decayTime step p))
       (schedule (LinearRampToValueAtTime (peakFilter step p) (t + 0.01))
          (schedule (SetValueAtTime (baseCutoff p) t)
             (cancelScheduledValues t (filter_frequency eng))))"
  by (simp add: scheduleStep_def scheduleStep_calls_def run_calls_simps on_param_def
           split: option.splits)

lemma scheduleStep_filter_Q:
  "active step \<Longrightarrow>
   filter_Q (scheduleStep step nx t p d eng) =
     schedule (SetValueAtTime (stepQ step p) t) (filter_Q eng)"
  by (simp add: scheduleStep_def scheduleStep_calls_def run_calls_simps on_param_def
           split: option.splits)

lemma scheduleStep_osc:
  "active step \<Longrightarrow>
   osc (scheduleStep step nx t p d eng) =
     (let n0 = (case osc eng of None \<Rightarrow> createOscillator t eng | Some n \<Rightarrow> n);
          f1 = schedule (SetValueAtTime (midi_frequency (baseMidi step)) t) (frequency n0);
          f2 = (case nx of
                  None \<Rightarrow> f1
                | Some n \<Rightarrow>
                    if slide step \<and> active n
                    then schedule (LinearRampToValueAtTime (midi_frequency (baseMidi n)) (t + d)) f1
                    else f1)
      in Some (n0\<lparr>osc_type := Some (waveform p), frequency := f2\<rparr>))"
  by (simp add: scheduleStep_def scheduleStep_calls_def run_calls_simps on_param_def Let_def
           split: option.splits)

lemma scheduleStep_ctx_created:
  "ctx_created (scheduleStep step nx t p d eng) =
     (if active step \<and> osc eng = None then Suc (ctx_created eng) else ctx_created eng)"
  by (simp add: scheduleStep_def scheduleStep_calls_def run_calls_simps on_param_def
           split: option.splits)

lemma scheduleStep_ctx_sounding:
  "ctx_sounding (scheduleStep step nx t p d eng) =
     (if active step \<and> osc eng = None then ctx_sounding eng @ [ctx_created eng]
      else ctx_sounding eng)"
  by (simp add: scheduleStep_def scheduleStep_calls_def run_calls_simps on_param_def
           split: option.splits)

lemma scheduleStep_ctx_currentTime:
  "ctx_currentTime (scheduleStep step nx t p d eng) = ctx_currentTime eng"
  by (simp add: scheduleStep_def scheduleStep_calls_def run_calls_simps on_param_def
           split: option.splits)

subsection \<open>Numbers\<close>

lemma midi_frequency_36: "65.40 < midi_frequency 36 \<and> midi_frequency 36 < 65.42"
proof -
  define x :: real where "x = 2 powr (- 11 / 4)"
  have xpos: "0 < x" by (simp add: x_def)
  have x4: "x ^ 4 = 1 / 2048"
  proof -
    have "x ^ 4 = 2 powr ((- 11 / 4) * 4)"
      unfolding x_def by (simp add: powr_powr flip: powr_realpow)
    also have "\<dots> = 2 powr (- 11)" by simp
    also have "\<dots> = 1 / 2 ^ 11" by (simp add: powr_minus_divide powr_realpow flip: powr_numeral)
    finally show ?thesis by simp
  qed
  have f: "midi_frequency 36 = 440 * x"
    by (simp add: midi_frequency_def x_def)
  have lo: "(327 / 2200 :: real) < x"
  proof (rule power_less_imp_less_base)
    show "(327 / 2200 :: real) ^ 4 < x ^ 4" by (simp add: x4 power_divide)
    show "0 \<le> x" using xpos by simp
  qed
  have hi: "x < (3271 / 22000 :: real)"
  proof (rule power_less_imp_less_base)
    show "x ^ 4 < (3271 / 22000 :: real) ^ 4" by (simp add: x4 power_divide)
    show "0 \<le> (3271 / 22000 :: real)" by simp
  qed
  show ?thesis using lo hi by (simp add: f)
qed

subsection \<open>Rounding to double precision\<close>

lemma pow2_powr: "pow2 e = 2 powr (of_int e)"
  by (simp add: pow2_def powr_int)

lemma pow2_pos: "0 < pow2 e"
  by (simp add: pow2_powr)

lemma pow2_add: "pow2 (a + b) = pow2 a * pow2 b"
  by (simp add: pow2_powr powr_add)

lemma pow2_nat: "pow2 (int n) = 2 ^ n"
  by (simp add: pow2_def)

lemma pow2_less_iff: "pow2 a < pow2 b \<longleftrightarrow> a < b"
  by (simp add: pow2_powr)

lemma pow2_le_iff: "pow2 a \<le> pow2 b \<longleftrightarrow> a \<le> b"
  by (simp add: pow2_powr)

lemma bitlen_pos: "0 < n \<Longrightarrow> 0 < bitlen n"
  using bitlen_nonneg [of "n div 2"] by (subst compute_bitlen) simp

lemma f64_exponent_bounds:
  assumes "0 < x"
  shows "pow2 (f64_exponent x) \<le> x \<and> x < pow2 (f64_exponent x + 1)"
proof (cases "1 \<le> x")
  case True
  let ?n = "\<lfloor>x\<rfloor>"
  have n: "0 < ?n" using True by simp
  have b: "2 ^ nat (bitlen ?n - 1) \<le> ?n" "?n < 2 ^ nat (bitlen ?n)"
    using bitlen_bounds [OF n] by simp_all
  have k: "0 < bitlen ?n" using n by (rule bitlen_pos)
  have e: "f64_exponent x = bitlen ?n - 1" using True by (simp add: f64_exponent_def)
  have "pow2 (bitlen ?n - 1) = 2 ^ nat (bitlen ?n - 1)"
    using k by (simp add: pow2_def)
  also have "\<dots> = of_int (2 ^ nat (bitlen ?n - 1))" by simp
  also have "\<dots> \<le> of_int ?n" using b(1) by (simp only: of_int_le_iff)
  also have "\<dots> \<le> x" by simp
  finally have lo: "pow2 (bitlen ?n - 1) \<le> x" .
  have "?n + 1 \<le> 2 ^ nat (bitlen ?n)" using b(2) by simp
  then have "(of_int (?n + 1) :: real) \<le> of_int (2 ^ nat (bitlen ?n))"
    by (simp only: of_int_le_iff)
  then have A: "(of_int (?n + 1) :: real) \<le> 2 ^ nat (bitlen ?n)" by simp
  have "x < of_int (?n + 1)" by linarith
  then have "x < 2 ^ nat (bitlen ?n)" using A by (rule less_le_trans)
  moreover have "pow2 (bitlen ?n - 1 + 1) = 2 ^ nat (bitlen ?n)"
    using k by (simp add: pow2_def)
  ultimately show ?thesis using lo e by simp
next
  case False
  let ?y = "1 / x"
  let ?m = "\<lceil>?y\<rceil> - 1"
  have y: "1 < ?y" using False assms by simp
  then have m: "0 < ?m" by linarith
  have b: "2 ^ nat (bitlen ?m - 1) \<le> ?m" "?m < 2 ^ nat (bitlen ?m)"
    using bitlen_bounds [OF m] by simp_all
  have k: "0 < bitlen ?m" using m by (rule bitlen_pos)
  have e: "f64_exponent x = - bitlen ?m" using False by (simp add: f64_exponent_def)
  have "?m + 1 \<le> 2 ^ nat (bitlen ?m)" using b(2) by simp
  then have "(of_int (?m + 1) :: real) \<le> of_int (2 ^ nat (bitlen ?m))"
    by (simp only: of_int_le_iff)
  then have A: "(of_int (?m + 1) :: real) \<le> 2 ^ nat (bitlen ?m)" by simp
  have "?y \<le> of_int (?m + 1)" by simp
  then have "?y \<le> 2 ^ nat (bitlen ?m)" using A by (rule order_trans)
  then have "1 / 2 ^ nat (bitlen ?m) \<le> x"
    using assms by (simp add: field_simps)
  moreover have "pow2 (- bitlen ?m) = 1 / 2 ^ nat (bitlen ?m)"
    using k by (simp add: pow2_def)
  ultimately have lo: "pow2 (- bitlen ?m) \<le> x" by simp
  have "(of_int (2 ^ nat (bitlen ?m - 1)) :: real) \<le> of_int ?m"
    using b(1) by (simp only: of_int_le_iff)
  then have B: "(2 ^ nat (bitlen ?m - 1) :: real) \<le> of_int ?m" by simp
  have "of_int ?m < ?y" by linarith
  with B have "2 ^ nat (bitlen ?m - 1) < ?y" by (rule le_less_trans)
  then have "x < 1 / 2 ^ nat (bitlen ?m - 1)"
    using assms by (simp add: field_simps)
  moreover have "pow2 (- bitlen ?m + 1) = 1 / 2 ^ nat (bitlen ?m - 1)"
  proof (cases "bitlen ?m = 1")
    case True
    then show ?thesis by (simp add: pow2_def)
  next
    case False
    then have "- bitlen ?m + 1 < 0" using k by simp
    moreover have "nat (- (- bitlen ?m + 1)) = nat (bitlen ?m - 1)" by simp
    ultimately show ?thesis by (simp add: pow2_def)
  qed
  ultimately show ?thesis using lo e by simp
qed

lemma round_half_even_error: "\<bar>of_int (round_half_even r) - r\<bar> \<le> 1 / 2"
  unfolding round_half_even_def Let_def by (auto; linarith)

lemma round_half_even_of_int: "round_half_even (of_int m) = m"
  by (simp add: round_half_even_def)

lemma round_half_even_ge: "of_int a \<le> r \<Longrightarrow> a \<le> round_half_even r"
  unfolding round_half_even_def Let_def by (auto simp: le_floor_iff; linarith)

lemma round_half_even_le: "r \<le> of_int b \<Longrightarrow> round_half_even r \<le> b"
  unfolding round_half_even_def Let_def
  by (auto; linarith)


lemma f64_normal:
  assumes "pow2 (- 1022) \<le> x"
  shows "f64 x = of_int (round_half_even (x / pow2 (f64_exponent x - 52))) * pow2 (f64_exponent x - 52)"
    and "2 ^ 52 \<le> x / pow2 (f64_exponent x - 52)" and "x / pow2 (f64_exponent x - 52) < 2 ^ 53"
    and "- 1022 \<le> f64_exponent x"
proof -
  have x: "0 < x" using assms pow2_pos [of "- 1022"] by linarith
  have b: "pow2 (f64_exponent x) \<le> x" "x < pow2 (f64_exponent x + 1)"
    using f64_exponent_bounds [OF x] by simp_all
  have "pow2 (- 1022) < pow2 (f64_exponent x + 1)" using assms b(2) by linarith
  then show e: "- 1022 \<le> f64_exponent x" by (simp add: pow2_less_iff)
  then have "max (f64_exponent x - 52) (- 1074) = f64_exponent x - 52" by simp
  then show "f64 x = of_int (round_half_even (x / pow2 (f64_exponent x - 52))) * pow2 (f64_exponent x - 52)"
    using x by (simp add: f64_def Let_def)
  have "pow2 (52 + (f64_exponent x - 52)) = pow2 52 * pow2 (f64_exponent x - 52)"
    "pow2 (53 + (f64_exponent x - 52)) = pow2 53 * pow2 (f64_exponent x - 52)"
    by (rule pow2_add)+
  moreover have "52 + (f64_exponent x - 52) = f64_exponent x"
    "53 + (f64_exponent x - 52) = f64_exponent x + 1" by simp_all
  moreover have "pow2 52 = 2 ^ 52" "pow2 53 = 2 ^ 53" by (simp_all add: pow2_def)
  ultimately have s: "pow2 (f64_exponent x) = 2 ^ 52 * pow2 (f64_exponent x - 52)"
    "pow2 (f64_exponent x + 1) = 2 ^ 53 * pow2 (f64_exponent x - 52)"
    by (simp_all only:)
  show "2 ^ 52 \<le> x / pow2 (f64_exponent x - 52)"
    using b(1) s(1) pow2_pos [of "f64_exponent x - 52"] by (simp add: pos_le_divide_eq)
  show "x / pow2 (f64_exponent x - 52) < 2 ^ 53"
    using b(2) s(2) pow2_pos [of "f64_exponent x - 52"] by (simp add: pos_divide_less_eq)
qed

lemma f64_error:
  assumes "pow2 (- 1022) \<le> x"
  shows "\<bar>f64 x - x\<bar> \<le> x / 2 ^ 53"
proof -
  let ?q = "f64_exponent x - 52"
  let ?r = "x / pow2 ?q"
  have p: "0 < pow2 ?q" by (rule pow2_pos)
  have "f64 x - x = (of_int (round_half_even ?r) - ?r) * pow2 ?q"
    using f64_normal(1) [OF assms] p by (simp add: algebra_simps)
  then have "\<bar>f64 x - x\<bar> = \<bar>of_int (round_half_even ?r) - ?r\<bar> * pow2 ?q"
    using p by (simp add: abs_mult)
  also have "\<dots> \<le> 1 / 2 * pow2 ?q"
    using round_half_even_error [of ?r] p by (simp add: mult_right_mono)
  also have "\<dots> \<le> 1 / 2 * (x / 2 ^ 52)"
    using f64_normal(2) [OF assms] p by (simp add: field_simps)
  also have "\<dots> = x / 2 ^ 53" by simp
  finally show ?thesis .
qed

lemma f64_bounds:
  assumes "pow2 (- 1022) \<le> x"
  shows "(1 - 1 / 2 ^ 53) * x \<le> f64 x" and "f64 x \<le> (1 + 1 / 2 ^ 53) * x"
proof -
  have e: "(1 + 1 / 2 ^ 53) * x = x + x / 2 ^ 53" "(1 - 1 / 2 ^ 53) * x = x - x / 2 ^ 53"
    by (simp_all add: algebra_simps)
  have "f64 x - x \<le> x / 2 ^ 53" "- (f64 x - x) \<le> x / 2 ^ 53"
    using f64_error [OF assms] by (simp_all only: abs_le_iff)
  then show "(1 - 1 / 2 ^ 53) * x \<le> f64 x" and "f64 x \<le> (1 + 1 / 2 ^ 53) * x"
    unfolding e by linarith+
qed

lemma f64_exact:
  assumes "2 ^ 52 \<le> m" and "m < 2 ^ 53" and "- 1074 \<le> q"
  shows "f64 (of_int m * pow2 q) = of_int m * pow2 q"
proof -
  let ?x = "of_int m * pow2 q :: real"
  have p: "0 < pow2 q" by (rule pow2_pos)
  have "(of_int (2 ^ 52) :: real) \<le> of_int m" "(of_int m :: real) < of_int (2 ^ 53)"
    using assms(1,2) by (simp_all only: of_int_le_iff of_int_less_iff)
  then have m: "(2 ^ 52 :: real) \<le> of_int m" "(of_int m :: real) < 2 ^ 53"
    by simp_all
  then have x: "0 < ?x" using p by simp
  have b: "pow2 (f64_exponent ?x) \<le> ?x" "?x < pow2 (f64_exponent ?x + 1)"
    using f64_exponent_bounds [OF x] by simp_all
  have "pow2 52 = 2 ^ 52" "pow2 53 = 2 ^ 53" by (simp_all add: pow2_def)
  then have "pow2 (52 + q) = 2 ^ 52 * pow2 q" "pow2 (53 + q) = 2 ^ 53 * pow2 q"
    by (simp_all only: pow2_add)
  moreover have "2 ^ 52 * pow2 q \<le> ?x" "?x < 2 ^ 53 * pow2 q"
    using m p by (simp_all only: mult_le_cancel_right mult_less_cancel_right) simp_all
  ultimately have "pow2 (q + 52) \<le> ?x" "?x < pow2 (q + 53)"
    by (simp_all only: add.commute [of q])
  then have "pow2 (q + 52) < pow2 (f64_exponent ?x + 1)" "pow2 (f64_exponent ?x) < pow2 (q + 53)"
    using b by linarith+
  then have e: "f64_exponent ?x = q + 52" by (simp add: pow2_less_iff)
  have "max (f64_exponent \<bar>?x\<bar> - 52) (- 1074) = q"
    using x e assms(3) by simp
  then show ?thesis
    using x p by (simp add: f64_def Let_def round_half_even_of_int)
qed

lemma f64_form:
  assumes "pow2 (- 1022) \<le> x"
  shows "\<exists>m q. f64 x = of_int m * pow2 q \<and> 2 ^ 52 \<le> m \<and> m < 2 ^ 53 \<and> f64_exponent x - 52 \<le> q"
proof -
  let ?q = "f64_exponent x - 52"
  let ?M = "round_half_even (x / pow2 ?q)"
  have lo: "2 ^ 52 \<le> ?M"
    using f64_normal(2) [OF assms] round_half_even_ge [of "2 ^ 52" "x / pow2 ?q"] by simp
  have hi: "?M \<le> 2 ^ 53"
    using f64_normal(3) [OF assms] round_half_even_le [of "x / pow2 ?q" "2 ^ 53"] by simp
  show ?thesis
  proof (cases "?M = 2 ^ 53")
    case False
    then have "?M < 2 ^ 53" using hi by simp
    then show ?thesis using f64_normal(1) [OF assms] lo by blast
  next
    case True
    have "f64 x = 2 ^ 53 * pow2 ?q"
      using f64_normal(1) [OF assms] True by simp
    also have "\<dots> = of_int (2 ^ 52) * pow2 (?q + 1)"
      using pow2_add [of ?q 1] by (simp add: pow2_def)
    finally have "f64 x = of_int (2 ^ 52) * pow2 (?q + 1)" .
    moreover have "(2 ^ 52 :: int) \<le> 2 ^ 52" "(2 ^ 52 :: int) < 2 ^ 53" "?q \<le> ?q + 1" by simp_all
    ultimately show ?thesis by blast
  qed
qed

lemma f64_quarter:
  assumes "pow2 (- 1020) \<le> x"
  shows "f64 (f64 x / 4) = f64 x / 4"
proof -
  have n: "pow2 (- 1022) \<le> x"
    using assms pow2_le_iff [of "- 1022" "- 1020"] by linarith
  obtain m q where f: "f64 x = of_int m * pow2 q" and m: "2 ^ 52 \<le> m" "m < 2 ^ 53"
    and q: "f64_exponent x - 52 \<le> q"
    using f64_form [OF n] by blast
  have x: "0 < x" using n pow2_pos [of "- 1022"] by linarith
  have "pow2 (- 1020) < pow2 (f64_exponent x + 1)"
    using assms f64_exponent_bounds [OF x] by linarith
  then have "- 1020 \<le> f64_exponent x" by (simp add: pow2_less_iff)
  then have q2: "- 1074 \<le> q - 2" using q by simp
  have "f64 x / 4 = of_int m * pow2 (q - 2)"
    using f pow2_add [of "q - 2" 2] by (simp add: pow2_def)
  then show ?thesis using f64_exact [OF m q2] by simp
qed

subsection \<open>The calls of one trigger, parameter by parameter\<close>

lemma calls_on_active:
  assumes "active step"
  shows "calls_on AmpGain (scheduleStep_calls step nx t p d) =
           Cancel AmpGain t # Schedule AmpGain (SetValueAtTime (activeVol step p) t) #
           (if \<not> slide step
            then [Schedule AmpGain (SetValueAtTime (activeVol step p) (t + d * 0.8)),
                  Schedule AmpGain (LinearRampToValueAtTime 0 (t + d * 0.8 + 0.02))]
            else [])"
    and "calls_on FilterFrequency (scheduleStep_calls step nx t p d) =
           [Cancel FilterFrequency t,
            Schedule FilterFrequency (SetValueAtTime (baseCutoff p) t),
            Schedule FilterFrequency (LinearRampToValueAtTime (peakFilter step p) (t + 0.01)),
            Schedule FilterFrequency
              (ExponentialRampToValueAtTime (baseCutoff p) (t + decayTime step p))]"
    and "calls_on FilterQ (scheduleStep_calls step nx t p d) =
           [Schedule FilterQ (SetValueAtTime (stepQ step p) t)]"
    and "calls_on OscFrequency (scheduleStep_calls step nx t p d) =
           Schedule OscFrequency (SetValueAtTime (midi_frequency (baseMidi step)) t) #
           (case nx of
              None \<Rightarrow> []
            | Some n \<Rightarrow>
                if slide step \<and> active n
                then [Schedule OscFrequency
                        (LinearRampToValueAtTime (midi_frequency (baseMidi n)) (t + d))]
                else [])"
  using assms by (simp_all add: calls_on_def scheduleStep_calls_def split: option.splits)

lemma set_events_from_schedule:
  "set (events_from t (schedule e q)) \<subseteq> insert e (set (events_from t q))"
  by (auto simp: events_from_def schedule_def insert_event_def)

lemma events_from_cancel: "events_from t (cancelScheduledValues t q) = []"
  by (auto simp: events_from_def cancelScheduledValues_def filter_empty_conv)

lemma timeline_simps:
  "timeline AmpGain eng = events (ampGain_gain eng)"
  "timeline FilterFrequency eng = events (filter_frequency eng)"
  "timeline FilterQ eng = events (filter_Q eng)"
  "timeline OscFrequency eng = (case osc eng of None \<Rightarrow> [] | Some n \<Rightarrow> events (frequency n))"
  by (simp_all add: timeline_def param_of_def split: option.splits)

lemma gain_events_from_trigger:
  assumes "active step"
  shows "set (events_from t (ampGain_gain (scheduleStep step nx t p d eng))) \<subseteq>
           set (scheduled_on AmpGain (scheduleStep_calls step nx t p d))"
proof -
  let ?c = "cancelScheduledValues t (ampGain_gain eng)"
  have c: "events_from t ?c = []" by (rule events_from_cancel)
  show ?thesis
  proof (cases "slide step")
    case True
    then show ?thesis
      using assms set_events_from_schedule [of t "SetValueAtTime (activeVol step p) t" ?c]
      by (simp add: scheduleStep_gain scheduled_on_def calls_on_active c)
  next
    case False
    let ?g1 = "schedule (SetValueAtTime (activeVol step p) t) ?c"
    let ?g2 = "schedule (SetValueAtTime (activeVol step p) (t + d * 0.8)) ?g1"
    have "set (events_from t ?g1) \<subseteq> {SetValueAtTime (activeVol step p) t}"
      using set_events_from_schedule [of t "SetValueAtTime (activeVol step p) t" ?c]
      by (simp add: c)
    moreover have "set (events_from t ?g2) \<subseteq>
        insert (SetValueAtTime (activeVol step p) (t + d * 0.8)) (set (events_from t ?g1))"
      by (rule set_events_from_schedule)
    moreover have "set (events_from t (schedule (LinearRampToValueAtTime 0 (t + d * 0.8 + 0.02)) ?g2)) \<subseteq>
        insert (LinearRampToValueAtTime 0 (t + d * 0.8 + 0.02)) (set (events_from t ?g2))"
      by (rule set_events_from_schedule)
    ultimately show ?thesis
      using assms False
      by (simp add: scheduleStep_gain scheduled_on_def calls_on_active) blast
  qed
qed

lemma filter_events_from_trigger:
  assumes "active step"
  shows "set (events_from t (filter_frequency (scheduleStep step nx t p d eng))) \<subseteq>
           set (scheduled_on FilterFrequency (scheduleStep_calls step nx t p d))"
proof -
  let ?c = "cancelScheduledValues t (filter_frequency eng)"
  let ?f1 = "schedule (SetValueAtTime (baseCutoff p) t) ?c"
  let ?f2 = "schedule (LinearRampToValueAtTime (peakFilter step p) (t + 0.01)) ?f1"
  let ?f3 = "schedule (ExponentialRampToValueAtTime (baseCutoff p) (t + decayTime step p)) ?f2"
  have c: "events_from t ?c = []" by (rule events_from_cancel)
  have "set (events_from t ?f1) \<subseteq> {SetValueAtTime (baseCutoff p) t}"
    using set_events_from_schedule [of t "SetValueAtTime (baseCutoff p) t" ?c] by (simp add: c)
  moreover have "set (events_from t ?f2) \<subseteq>
      insert (LinearRampToValueAtTime (peakFilter step p) (t + 0.01)) (set (events_from t ?f1))"
    by (rule set_events_from_schedule)
  moreover have "set (events_from t ?f3) \<subseteq>
      insert (ExponentialRampToValueAtTime (baseCutoff p) (t + decayTime step p))
        (set (events_from t ?f2))"
    by (rule set_events_from_schedule)
  ultimately show ?thesis
    using assms by (simp add: scheduleStep_filter_frequency scheduled_on_def calls_on_active) blast
qed

lemma old_events_kept:
  assumes "active step"
  shows "set (timeline FilterQ eng) \<subseteq> set (timeline FilterQ (scheduleStep step nx t p d eng))"
    and "set (timeline OscFrequency eng) \<subseteq>
           set (timeline OscFrequency (scheduleStep step nx t p d eng))"
  using assms
  by (auto simp: timeline_simps scheduleStep_filter_Q scheduleStep_osc set_events_schedule Let_def
        split: option.splits)

subsection \<open>The amplitude gate after a trigger\<close>

lemma insert_event_last:
  "\<forall>x\<in>set es. event_time x \<le> event_time e \<Longrightarrow> insert_event e es = es @ [e]"
  by (simp add: insert_event_def filter_empty_conv not_less filter_id_conv)

lemma events_schedule_last:
  "\<forall>x\<in>set (events q). event_time x \<le> event_time e \<Longrightarrow> events (schedule e q) = events q @ [e]"
  by (simp add: schedule_def insert_event_last)

lemma events_schedule_after_cancel:
  "t \<le> event_time e \<Longrightarrow>
   events (schedule e (cancelScheduledValues t q)) = filter (\<lambda>x. event_time x < t) (events q) @ [e]"
  by (simp add: schedule_def cancelScheduledValues_def insert_event_last)

lemma events_schedule3_after_cancel:
  assumes "t \<le> event_time a" and "event_time a \<le> event_time b" and "event_time b \<le> event_time c"
  shows "events (schedule c (schedule b (schedule a (cancelScheduledValues t q)))) =
           filter (\<lambda>x. event_time x < t) (events q) @ [a, b, c]"
proof -
  let ?g1 = "schedule a (cancelScheduledValues t q)"
  have e1: "events ?g1 = filter (\<lambda>x. event_time x < t) (events q) @ [a]"
    using assms(1) by (simp add: events_schedule_after_cancel)
  have "\<forall>x\<in>set (events ?g1). event_time x \<le> event_time b"
    using assms(1,2) by (auto simp: e1)
  then have e2: "events (schedule b ?g1) = events ?g1 @ [b]"
    by (rule events_schedule_last)
  have "\<forall>x\<in>set (events (schedule b ?g1)). event_time x \<le> event_time c"
    using assms by (auto simp: e2 e1)
  then have "events (schedule c (schedule b ?g1)) = events (schedule b ?g1) @ [c]"
    by (rule events_schedule_last)
  then show ?thesis by (simp add: e2 e1)
qed

lemma gain_events_after_trigger:
  assumes "active step" and "0 \<le> d"
  shows "events (ampGain_gain (scheduleStep step nx t p d eng)) =
           filter (\<lambda>x. event_time x < t) (events (ampGain_gain eng)) @
           SetValueAtTime (activeVol step p) t #
           (if slide step then []
            else [SetValueAtTime (activeVol step p) (t + d * 0.8),
                  LinearRampToValueAtTime 0 (t + d * 0.8 + 0.02)])"
  using assms
  by (simp add: scheduleStep_gain events_schedule_after_cancel events_schedule3_after_cancel)

lemma gain_events_from_slide:
  assumes "active step" and "slide step"
  shows "events_from t (ampGain_gain (scheduleStep step nx t p d eng)) =
           [SetValueAtTime (activeVol step p) t]"
  using assms by (simp add: scheduleStep_gain events_from_cancel_schedule)

subsection \<open>Bounds on what is scheduled\<close>




subsection \<open>The oscillator's lifetime\<close>

lemma voice_inv_new: "voice_inv new_AudioEngine"
  by (simp add: voice_inv_def new_AudioEngine_def)

lemma voice_inv_scheduleStep:
  "voice_inv eng \<Longrightarrow> voice_inv (scheduleStep step nx t p d eng)"
  by (cases "active step")
     (auto simp: voice_inv_def scheduleStep_inactive scheduleStep_osc scheduleStep_ctx_sounding
        Let_def createOscillator_def split: option.splits)

lemma voice_inv_stop: "voice_inv eng \<Longrightarrow> voice_inv (stop eng)"
  by (auto simp: voice_inv_def stop_def Let_def split: option.splits)

lemma stop_releases: "voice_inv eng \<Longrightarrow> osc (stop eng) = None \<and> ctx_sounding (stop eng) = []"
  by (auto simp: voice_inv_def stop_def Let_def split: option.splits)

lemma stop_keeps_filter:
  "filter_frequency (stop eng) = filter_frequency eng \<and> filter_Q (stop eng) = filter_Q eng \<and>
   ctx_created (stop eng) = ctx_created eng"
  by (auto simp: stop_def Let_def split: option.splits)

lemma osc_stop: "osc (stop eng) = None"
  by (simp add: stop_def Let_def split: option.splits)

lemma osc_without_clock:
  assumes "without_clock eng' = without_clock eng"
  shows "osc eng' = osc eng"
proof -
  have "osc (without_clock eng') = osc (without_clock eng)" using assms by simp
  then show ?thesis by (simp add: without_clock_def)
qed

lemma voice_inv_without_clock:
  assumes "without_clock eng' = without_clock eng"
  shows "voice_inv eng' = voice_inv eng"
proof -
  have "voice_inv (without_clock eng') = voice_inv (without_clock eng)" using assms by simp
  then show ?thesis by (simp add: without_clock_def voice_inv_def)
qed

subsection \<open>Advancing the cursor\<close>

lemma secondsPerStep_eq: "secondsPerStep p = 15 / tempo p"
  by (simp add: secondsPerStep_def)

lemma smod_16_nonneg: "0 \<le> i \<Longrightarrow> (i + 1) smod STEPS_PER_BAR = (i + 1) mod 16"
  by (simp add: signed_modulo_int_def STEPS_PER_BAR_def sgn_if)

lemma nextNote_fields:
  "paramsRef (nextNote s) = paramsRef s"
  "nextNoteTime (nextNote s) = nextNoteTime s + 15 / tempo (paramsRef s)"
  "currentStepRef (nextNote s) = (currentStepRef s + 1) smod STEPS_PER_BAR"
  by (simp_all add: nextNote_def secondsPerStep_eq)

lemma nextNote_index_range:
  "0 \<le> currentStepRef s \<Longrightarrow> 0 \<le> currentStepRef (nextNote s) \<and> currentStepRef (nextNote s) \<le> 15"
  by (simp add: nextNote_fields smod_16_nonneg)

lemma nextNote_funpow:
  "paramsRef ((nextNote ^^ N) s) = paramsRef s \<and>
   nextNoteTime ((nextNote ^^ N) s) = nextNoteTime s + real N * (15 / tempo (paramsRef s)) \<and>
   (0 \<le> currentStepRef s \<and> currentStepRef s \<le> 15 \<longrightarrow>
      0 \<le> currentStepRef ((nextNote ^^ N) s) \<and> currentStepRef ((nextNote ^^ N) s) \<le> 15)"
proof (induction N)
  case 0
  show ?case by simp
next
  case (Suc N)
  then show ?case
    using nextNote_index_range [of "(nextNote ^^ N) s"]
    by (simp add: nextNote_fields distrib_right add_divide_distrib)
qed

subsection \<open>Advancing the cursor in double precision\<close>

lemma nextNote_f64_fields:
  "paramsRef (nextNote_f64 s) = paramsRef s"
  "nextNoteTime (nextNote_f64 s) =
     f64 (nextNoteTime s + f64 (f64 (60 / tempo (paramsRef s)) / 4))"
  "currentStepRef (nextNote_f64 s) = (currentStepRef s + 1) smod STEPS_PER_BAR"
  by (simp_all add: nextNote_f64_def Let_def)

lemma index_in_bar_nextNote_f64: "index_in_bar s \<Longrightarrow> index_in_bar (nextNote_f64 s)"
  by (simp add: index_in_bar_def nextNote_f64_fields signed_modulo_int_def STEPS_PER_BAR_def sgn_if)

lemma nextNote_f64_index_funpow:
  assumes "index_in_bar s"
  shows "index_in_bar ((nextNote_f64 ^^ k) s) \<and>
         currentStepRef ((nextNote_f64 ^^ k) s) = (currentStepRef s + int k) mod 16 \<and>
         paramsRef ((nextNote_f64 ^^ k) s) = paramsRef s"
proof (induction k)
  case 0
  show ?case using assms by (simp add: index_in_bar_def STEPS_PER_BAR_def)
next
  case (Suc k)
  let ?s = "(nextNote_f64 ^^ k) s"
  have i: "index_in_bar ?s" and c: "currentStepRef ?s = (currentStepRef s + int k) mod 16"
    and p: "paramsRef ?s = paramsRef s"
    using Suc.IH by simp_all
  have "currentStepRef (nextNote_f64 ?s) = (currentStepRef ?s + 1) mod 16"
    using i by (simp add: nextNote_f64_fields smod_16_nonneg index_in_bar_def)
  also have "\<dots> = (currentStepRef s + int (Suc k)) mod 16"
    unfolding c by (simp add: mod_simps ac_simps)
  finally show ?case
    using index_in_bar_nextNote_f64 [OF i] p by (simp add: nextNote_f64_fields)
qed

text \<open>
  For a tempo between 60 and 200 the division by 4 is exact, and the increment is within
  a relative error of \<open>2 ^ - 53\<close> of \<open>15 / tempo\<close>.
\<close>

lemma f64_step:
  assumes "60 \<le> tempo p" and "tempo p \<le> 200"
  shows "f64 (f64 (60 / tempo p) / 4) = f64 (60 / tempo p) / 4"
    and "(1 - 1 / 2 ^ 53) * (15 / tempo p) \<le> f64 (60 / tempo p) / 4"
    and "f64 (60 / tempo p) / 4 \<le> (1 + 1 / 2 ^ 53) * (15 / tempo p)"
proof -
  have q: "3 / 10 \<le> 60 / tempo p"
    using assms by (simp add: field_simps)
  have "pow2 (- 1020) \<le> pow2 (- 2)" by (simp add: pow2_le_iff)
  also have "\<dots> \<le> 3 / 10" by (simp add: pow2_def)
  finally have n: "pow2 (- 1020) \<le> 60 / tempo p" using q by linarith
  have "pow2 (- 1022) \<le> pow2 (- 1020)" by (simp add: pow2_le_iff)
  then have n': "pow2 (- 1022) \<le> 60 / tempo p" using n by linarith
  show "f64 (f64 (60 / tempo p) / 4) = f64 (60 / tempo p) / 4"
    using n by (rule f64_quarter)
  have e: "15 / tempo p = (60 / tempo p) / 4" by simp
  show "(1 - 1 / 2 ^ 53) * (15 / tempo p) \<le> f64 (60 / tempo p) / 4"
    and "f64 (60 / tempo p) / 4 \<le> (1 + 1 / 2 ^ 53) * (15 / tempo p)"
    unfolding e using f64_bounds [OF n'] by simp_all
qed

lemma nextNote_f64_drift:
  assumes "60 \<le> tempo (paramsRef s)" and "tempo (paramsRef s) \<le> 200" and "0 \<le> nextNoteTime s"
  shows "(1 - 1 / 2 ^ 53) ^ (k + 1) * (nextNoteTime s + real k * (15 / tempo (paramsRef s)))
           \<le> nextNoteTime ((nextNote_f64 ^^ k) s) \<and>
         nextNoteTime ((nextNote_f64 ^^ k) s)
           \<le> (1 + 1 / 2 ^ 53) ^ (k + 1) * (nextNoteTime s + real k * (15 / tempo (paramsRef s)))"
proof (induction k)
  case 0
  have "(1 - 1 / 2 ^ 53) * nextNoteTime s \<le> 1 * nextNoteTime s"
    "1 * nextNoteTime s \<le> (1 + 1 / 2 ^ 53) * nextNoteTime s"
    using assms(3) by (intro mult_right_mono; simp)+
  then show ?case by simp
next
  case (Suc k)
  define u :: real where "u = 1 / 2 ^ 53"
  define c where "c = 15 / tempo (paramsRef s)"
  define d where "d = f64 (60 / tempo (paramsRef s)) / 4"
  define t where "t = nextNoteTime s"
  define T where "T = nextNoteTime ((nextNote_f64 ^^ k) s)"
  have u: "0 < u" "u < 1" by (simp_all add: u_def)
  have c: "3 / 40 \<le> c" using assms(1,2) by (simp add: c_def field_simps)
  have t: "0 \<le> t" using assms(3) by (simp add: t_def)
  have p: "paramsRef ((nextNote_f64 ^^ k) s) = paramsRef s"
    by (induction k) (simp_all add: nextNote_f64_fields)
  have d: "(1 - u) * c \<le> d" "d \<le> (1 + u) * c"
    and dq: "f64 (f64 (60 / tempo (paramsRef s)) / 4) = d"
    using f64_step [OF assms(1,2)] by (simp_all add: u_def c_def d_def)
  have IH: "(1 - u) ^ (k + 1) * (t + real k * c) \<le> T" "T \<le> (1 + u) ^ (k + 1) * (t + real k * c)"
    using Suc.IH by (simp_all add: u_def c_def t_def T_def)
  have next_T: "nextNoteTime ((nextNote_f64 ^^ Suc k) s) = f64 (T + d)"
    using p dq by (simp add: nextNote_f64_fields T_def)
  have base: "0 \<le> t + real k * c" using t c by simp
  have T0: "0 \<le> T"
  proof -
    have "0 \<le> (1 - u) ^ (k + 1) * (t + real k * c)"
      using u base by (intro mult_nonneg_nonneg) simp_all
    then show ?thesis using IH(1) by linarith
  qed
  have d0: "1 / 32 \<le> d"
  proof -
    have "1 / 2 \<le> 1 - u" by (simp add: u_def)
    then have "1 / 2 * c \<le> (1 - u) * c" using c by (intro mult_right_mono) simp_all
    then show ?thesis using d(1) c by linarith
  qed
  have "pow2 (- 1022) \<le> pow2 (- 5)" by (simp add: pow2_le_iff)
  also have "\<dots> = 1 / 32" by (simp add: pow2_def)
  finally have n: "pow2 (- 1022) \<le> T + d" using T0 d0 by linarith
  have r: "(1 - u) * (T + d) \<le> f64 (T + d)" "f64 (T + d) \<le> (1 + u) * (T + d)"
    using f64_bounds [OF n] by (simp_all add: u_def)
  have c0: "0 \<le> c" using c by simp
  have up: "T + d \<le> (1 + u) ^ (k + 1) * (t + real (Suc k) * c)"
  proof -
    have "1 + u \<le> (1 + u) ^ (k + 1)"
      using u self_le_power [of "1 + u" "k + 1"] by simp
    then have "(1 + u) * c \<le> (1 + u) ^ (k + 1) * c" using c0 by (rule mult_right_mono)
    then have "T + d \<le> (1 + u) ^ (k + 1) * (t + real k * c) + (1 + u) ^ (k + 1) * c"
      using IH(2) d(2) by linarith
    also have "\<dots> = (1 + u) ^ (k + 1) * (t + real (Suc k) * c)"
      by (simp add: algebra_simps)
    finally show ?thesis .
  qed
  have lo: "(1 - u) ^ (k + 1) * (t + real (Suc k) * c) \<le> T + d"
  proof -
    have "(1 - u) ^ (k + 1) \<le> 1 - u"
      using u power_Suc_le_self [of "1 - u" k] by simp
    then have "(1 - u) ^ (k + 1) * c \<le> (1 - u) * c" using c0 by (rule mult_right_mono)
    then have "(1 - u) ^ (k + 1) * (t + real k * c) + (1 - u) ^ (k + 1) * c \<le> T + d"
      using IH(1) d(1) by linarith
    moreover have "(1 - u) ^ (k + 1) * (t + real k * c) + (1 - u) ^ (k + 1) * c =
          (1 - u) ^ (k + 1) * (t + real (Suc k) * c)"
      by (simp add: algebra_simps)
    ultimately show ?thesis by simp
  qed
  have "f64 (T + d) \<le> (1 + u) * ((1 + u) ^ (k + 1) * (t + real (Suc k) * c))"
  proof -
    have "(1 + u) * (T + d) \<le> (1 + u) * ((1 + u) ^ (k + 1) * (t + real (Suc k) * c))"
      using up u by (intro mult_left_mono) simp_all
    then show ?thesis using r(2) by linarith
  qed
  moreover have "(1 - u) * ((1 - u) ^ (k + 1) * (t + real (Suc k) * c)) \<le> f64 (T + d)"
  proof -
    have "(1 - u) * ((1 - u) ^ (k + 1) * (t + real (Suc k) * c)) \<le> (1 - u) * (T + d)"
      using lo u by (intro mult_left_mono) simp_all
    then show ?thesis using r(1) by linarith
  qed
  ultimately show ?case
    unfolding next_T by (simp add: u_def c_def t_def mult.assoc)
qed

subsection \<open>The Note On timer\<close>

lemma scheduleNote_body_active:
  assumes "at_index pat i = Some step" and "active step"
  shows "\<exists>s1. scheduleNote_body p pat i t s = Inr s1 \<and>
           timer_cb (last (timers s1)) =
             MidiNoteOn (36 + step_note step + octave step * 12) (if accent step then 127 else 100)
               step (duration p)"
  using assms by (simp add: scheduleNote_body_def Let_def setTimeout_def)

lemma run_callback_MidiNoteOn:
  assumes "selected_output (midiService s) = Some out"
  shows "\<exists>s3. run_callback fuel (MidiNoteOn n v step d) s = Some (Inr s3) \<and>
           midi_out s3 = midi_out s @ [(out, [0x90, max 0 (min 127 n), max 0 (min 127 v)])]"
  using assms by (simp add: run_callback_def Let_def setTimeout_def sendNoteOn_def)

subsection \<open>What the scheduler does to the timers\<close>

lemma setTimeout_fields:
  "timers (snd (setTimeout cb ms s)) =
     timers s @ [\<lparr>timer_id = next_timer_id s, due = now s + max 0 ms / 1000, timer_cb = cb\<rparr>]"
  "next_timer_id (snd (setTimeout cb ms s)) = Suc (next_timer_id s)"
  "fst (setTimeout cb ms s) = next_timer_id s"
  "timerID (snd (setTimeout cb ms s)) = timerID s"
  "isPlayingRef (snd (setTimeout cb ms s)) = isPlayingRef s"
  "playState (snd (setTimeout cb ms s)) = playState s"
  "midi_out (snd (setTimeout cb ms s)) = midi_out s"
  "midiService (snd (setTimeout cb ms s)) = midiService s"
  "audioEngine (snd (setTimeout cb ms s)) = audioEngine s"
  "paramsRef (snd (setTimeout cb ms s)) = paramsRef s"
  "patternRef (snd (setTimeout cb ms s)) = patternRef s"
  by (simp_all add: setTimeout_def)

lemma loop_frame_refl: "loop_frame s s"
  by (simp add: loop_frame_def)

lemma loop_frame_trans: "loop_frame s s1 \<Longrightarrow> loop_frame s1 s2 \<Longrightarrow> loop_frame s s2"
  by (simp add: loop_frame_def)

lemma scheduleNote_body_frame:
  "scheduleNote_body p pat i t s = Inr s' \<Longrightarrow> loop_frame s s'"
  by (auto simp: scheduleNote_body_def Let_def loop_frame_def pending_ticks_def setTimeout_def
        split: option.splits if_splits)

lemma nextNote_frame: "loop_frame s (nextNote s)"
  by (simp add: loop_frame_def nextNote_def pending_ticks_def)

lemma legacy_nextNote_frame: "loop_frame s (legacy_nextNote p s)"
  by (simp add: loop_frame_def legacy_nextNote_def pending_ticks_def)

lemma scheduler_loop_frame:
  "scheduler_loop fuel s = Some (Inr s') \<Longrightarrow> loop_frame s s'"
proof (induction fuel arbitrary: s)
  case 0
  then show ?case by simp
next
  case (Suc k)
  show ?case
  proof (cases "nextNoteTime s < now s + SCHEDULE_AHEAD_TIME")
    case False
    with Suc.prems show ?thesis by (simp add: loop_frame_refl)
  next
    case True
    with Suc.prems obtain s1 where
      s1: "scheduleNote (currentStepRef s) (nextNoteTime s) s = Inr s1"
      and rest: "scheduler_loop k (nextNote s1) = Some (Inr s')"
      by (auto split: sum.splits)
    have "loop_frame s s1"
      using s1 by (simp add: scheduleNote_def scheduleNote_body_frame)
    moreover have "loop_frame s1 (nextNote s1)" by (rule nextNote_frame)
    moreover have "loop_frame (nextNote s1) s'" using rest by (rule Suc.IH)
    ultimately show ?thesis by (blast intro: loop_frame_trans)
  qed
qed

lemma legacy_scheduler_loop_frame:
  "legacy_scheduler_loop fuel p pat s = Some (Inr s') \<Longrightarrow> loop_frame s s'"
proof (induction fuel arbitrary: s)
  case 0
  then show ?case by simp
next
  case (Suc k)
  show ?case
  proof (cases "nextNoteTime s < now s + SCHEDULE_AHEAD_TIME")
    case False
    with Suc.prems show ?thesis by (simp add: loop_frame_refl)
  next
    case True
    with Suc.prems obtain s1 where
      s1: "scheduleNote_body p pat (currentStepRef s) (nextNoteTime s) s = Inr s1"
      and rest: "legacy_scheduler_loop k p pat (legacy_nextNote p s1) = Some (Inr s')"
      by (auto split: sum.splits)
    have "loop_frame s s1" using s1 by (rule scheduleNote_body_frame)
    moreover have "loop_frame s1 (legacy_nextNote p s1)" by (rule legacy_nextNote_frame)
    moreover have "loop_frame (legacy_nextNote p s1) s'" using rest by (rule Suc.IH)
    ultimately show ?thesis by (blast intro: loop_frame_trans)
  qed
qed

lemma rearm_ticks:
  assumes "is_tick cb" and "pending_ticks s = []" and "0 < next_timer_id s"
  shows "0 < next_timer_id (rearm cb s) \<and>
         list_all (\<lambda>t. timerID (rearm cb s) = Some (timer_id t) \<and> timer_id t \<noteq> 0)
           (pending_ticks (rearm cb s)) \<and>
         playState (rearm cb s) = playState s \<and>
         (\<not> isPlayingRef s \<longrightarrow> pending_ticks (rearm cb s) = [])"
  using assms by (simp add: rearm_def setTimeout_def pending_ticks_def)

lemma tick_run_inv:
  assumes run: "loop fuel s = Some (Inr s1)"
    and frame: "\<And>s1. loop fuel s = Some (Inr s1) \<Longrightarrow> loop_frame s s1"
    and tick: "is_tick cb"
    and none: "pending_ticks s = []" and pos: "0 < next_timer_id s"
  shows "0 < next_timer_id (rearm cb s1) \<and>
         list_all (\<lambda>t. timerID (rearm cb s1) = Some (timer_id t) \<and> timer_id t \<noteq> 0)
           (pending_ticks (rearm cb s1)) \<and>
         playState (rearm cb s1) = playState s"
proof -
  have f: "loop_frame s s1" using run by (rule frame)
  then have "pending_ticks s1 = []" "0 < next_timer_id s1" "playState s1 = playState s"
    using none pos by (simp_all add: loop_frame_def)
  then show ?thesis using rearm_ticks [OF tick, of s1] by simp
qed

lemma map_result_InrD:
  assumes "map_option (map_sum id f) r = Some (Inr s')"
  shows "\<exists>s1. r = Some (Inr s1) \<and> s' = f s1"
proof (cases r)
  case None
  with assms show ?thesis by simp
next
  case (Some x)
  with assms show ?thesis by (cases x) auto
qed

lemma scheduler_tick_inv:
  assumes "scheduler fuel s = Some (Inr s')" and "pending_ticks s = []" and "0 < next_timer_id s"
  shows "0 < next_timer_id s' \<and>
         list_all (\<lambda>t. timerID s' = Some (timer_id t) \<and> timer_id t \<noteq> 0) (pending_ticks s') \<and>
         playState s' = playState s"
proof -
  obtain s1 where s1: "scheduler_loop fuel s = Some (Inr s1)"
    and s': "s' = rearm SchedulerTick s1"
    using map_result_InrD [OF assms(1) [unfolded scheduler_def]] by blast
  show ?thesis
    unfolding s'
    using tick_run_inv [of scheduler_loop fuel s s1 SchedulerTick] s1 assms(2,3)
      scheduler_loop_frame by simp
qed

lemma legacy_scheduler_tick_inv:
  assumes "legacy_scheduler fuel p pat s = Some (Inr s')" and "pending_ticks s = []"
    and "0 < next_timer_id s"
  shows "0 < next_timer_id s' \<and>
         list_all (\<lambda>t. timerID s' = Some (timer_id t) \<and> timer_id t \<noteq> 0) (pending_ticks s') \<and>
         playState s' = playState s"
proof -
  obtain s1 where s1: "legacy_scheduler_loop fuel p pat s = Some (Inr s1)"
    and s': "s' = rearm (LegacySchedulerTick p pat) s1"
    using map_result_InrD [OF assms(1) [unfolded legacy_scheduler_def]] by blast
  show ?thesis
    unfolding s'
    using tick_run_inv [of "\<lambda>f. legacy_scheduler_loop f p pat" fuel s s1 "LegacySchedulerTick p pat"]
      s1 assms(2,3) legacy_scheduler_loop_frame by simp
qed

subsection \<open>The step index stays within the bar\<close>

lemma index_in_bar_nextNote: "index_in_bar s \<Longrightarrow> index_in_bar (nextNote s)"
  by (simp add: index_in_bar_def nextNote_def signed_modulo_int_def STEPS_PER_BAR_def sgn_if)

lemma index_in_bar_legacy_nextNote: "index_in_bar s \<Longrightarrow> index_in_bar (legacy_nextNote p s)"
  by (simp add: index_in_bar_def legacy_nextNote_def signed_modulo_int_def STEPS_PER_BAR_def sgn_if)

lemma scheduleNote_body_index:
  "scheduleNote_body p pat i t s = Inr s' \<Longrightarrow> currentStepRef s' = currentStepRef s"
  by (auto simp: scheduleNote_body_def Let_def setTimeout_def split: option.splits if_splits)

lemma scheduler_loop_index:
  "scheduler_loop fuel s = Some (Inr s') \<Longrightarrow> index_in_bar s \<Longrightarrow> index_in_bar s'"
proof (induction fuel arbitrary: s)
  case 0
  then show ?case by simp
next
  case (Suc k)
  show ?case
  proof (cases "nextNoteTime s < now s + SCHEDULE_AHEAD_TIME")
    case False
    with Suc.prems show ?thesis by simp
  next
    case True
    with Suc.prems(1) obtain s1 where
      s1: "scheduleNote (currentStepRef s) (nextNoteTime s) s = Inr s1"
      and rest: "scheduler_loop k (nextNote s1) = Some (Inr s')"
      by (auto split: sum.splits)
    have "currentStepRef s1 = currentStepRef s"
      using s1 by (simp add: scheduleNote_def scheduleNote_body_index)
    then have "index_in_bar s1" using Suc.prems(2) by (simp add: index_in_bar_def)
    then have "index_in_bar (nextNote s1)" by (rule index_in_bar_nextNote)
    with rest show ?thesis by (rule Suc.IH)
  qed
qed

lemma legacy_scheduler_loop_index:
  "legacy_scheduler_loop fuel p pat s = Some (Inr s') \<Longrightarrow> index_in_bar s \<Longrightarrow> index_in_bar s'"
proof (induction fuel arbitrary: s)
  case 0
  then show ?case by simp
next
  case (Suc k)
  show ?case
  proof (cases "nextNoteTime s < now s + SCHEDULE_AHEAD_TIME")
    case False
    with Suc.prems show ?thesis by simp
  next
    case True
    with Suc.prems(1) obtain s1 where
      s1: "scheduleNote_body p pat (currentStepRef s) (nextNoteTime s) s = Inr s1"
      and rest: "legacy_scheduler_loop k p pat (legacy_nextNote p s1) = Some (Inr s')"
      by (auto split: sum.splits)
    have "currentStepRef s1 = currentStepRef s"
      using s1 by (rule scheduleNote_body_index)
    then have "index_in_bar s1" using Suc.prems(2) by (simp add: index_in_bar_def)
    then have "index_in_bar (legacy_nextNote p s1)" by (rule index_in_bar_legacy_nextNote)
    with rest show ?thesis by (rule Suc.IH)
  qed
qed

lemma index_in_bar_rearm: "index_in_bar (rearm cb s) = index_in_bar s"
  by (simp add: index_in_bar_def rearm_def setTimeout_def)

lemma scheduler_index:
  assumes "scheduler fuel s = Some (Inr s')" and "index_in_bar s"
  shows "index_in_bar s'"
proof -
  obtain s1 where "scheduler_loop fuel s = Some (Inr s1)" and "s' = rearm SchedulerTick s1"
    using map_result_InrD [OF assms(1) [unfolded scheduler_def]] by blast
  then show ?thesis using scheduler_loop_index assms(2) by (simp add: index_in_bar_rearm)
qed

lemma legacy_scheduler_index:
  assumes "legacy_scheduler fuel p pat s = Some (Inr s')" and "index_in_bar s"
  shows "index_in_bar s'"
proof -
  obtain s1 where "legacy_scheduler_loop fuel p pat s = Some (Inr s1)"
    and "s' = rearm (LegacySchedulerTick p pat) s1"
    using map_result_InrD [OF assms(1) [unfolded legacy_scheduler_def]] by blast
  then show ?thesis using legacy_scheduler_loop_index assms(2) by (simp add: index_in_bar_rearm)
qed

lemma index_in_bar_startSequencer:
  assumes "index_in_bar s" and "startSequencer fuel s = Some (Inr s')"
  shows "index_in_bar s'"
proof (cases "playState s = PLAYING")
  case True
  with assms show ?thesis by (simp add: startSequencer_def)
next
  case False
  let ?s0 = "s\<lparr>audioEngine := resume (audioEngine s), isPlayingRef := True, currentStepRef := 0,
                 nextNoteTime := ctx_currentTime (resume (audioEngine s)) + 0.05\<rparr>"
  have run: "map_option (map_sum id (\<lambda>s2. s2\<lparr>playState := PLAYING\<rparr>)) (scheduler fuel ?s0) =
               Some (Inr s')"
    using assms(2) False by (simp add: startSequencer_def)
  obtain s2 where s2: "scheduler fuel ?s0 = Some (Inr s2)" and s': "s' = s2\<lparr>playState := PLAYING\<rparr>"
    using map_result_InrD [OF run] by blast
  have "index_in_bar ?s0" by (simp add: index_in_bar_def STEPS_PER_BAR_def)
  then have "index_in_bar s2" by (rule scheduler_index [OF s2])
  then show ?thesis by (simp add: index_in_bar_def s')
qed

lemma index_in_bar_stopSequencer: "index_in_bar (stopSequencer s) = index_in_bar s"
  by (simp add: index_in_bar_def stopSequencer_def Let_def clearTimeout_def split: option.splits)

lemma index_in_bar_fire_timer:
  assumes "index_in_bar s" and "fire_timer fuel i s = Some (Inr s')"
  shows "index_in_bar s'"
proof (cases "find (\<lambda>t. timer_id t = i) (timers s)")
  case None
  with assms show ?thesis by (simp add: fire_timer_def)
next
  case (Some t)
  let ?s0 = "advance_clock (due t) (clearTimeout i s)"
  have cb: "run_callback fuel (timer_cb t) ?s0 = Some (Inr s')"
    using assms(2) Some by (simp add: fire_timer_def)
  have i0: "index_in_bar ?s0"
    using assms(1) by (simp add: index_in_bar_def advance_clock_def clearTimeout_def)
  show ?thesis
  proof (cases "timer_cb t")
    case SchedulerTick
    then have "scheduler fuel ?s0 = Some (Inr s')" using cb by (simp add: run_callback_def)
    then show ?thesis using i0 by (rule scheduler_index)
  next
    case (LegacySchedulerTick p pat)
    then have "legacy_scheduler fuel p pat ?s0 = Some (Inr s')"
      using cb by (simp add: run_callback_def)
    then show ?thesis using i0 by (rule legacy_scheduler_index)
  next
    case (SetCurrentStep n)
    then show ?thesis using cb i0 by (auto simp: run_callback_def index_in_bar_def)
  next
    case (MidiNoteOn n vel step d)
    then show ?thesis
      using cb i0 by (auto simp: run_callback_def index_in_bar_def Let_def setTimeout_def)
  next
    case (MidiNoteOff n)
    then show ?thesis using cb i0 by (auto simp: run_callback_def index_in_bar_def)
  qed
qed

lemma index_in_bar_perform:
  assumes "index_in_bar s" and "perform fuel a s = Some (Inr s')"
  shows "index_in_bar s'"
proof (cases a)
  case StartSequencer
  with assms show ?thesis by (auto simp: perform_def intro: index_in_bar_startSequencer)
next
  case StopSequencer
  with assms show ?thesis by (auto simp: perform_def index_in_bar_stopSequencer)
next
  case (TimerFires i)
  with assms show ?thesis by (auto simp: perform_def intro: index_in_bar_fire_timer)
next
  case (TimePasses t)
  with assms show ?thesis by (auto simp: perform_def index_in_bar_def advance_clock_def)
next
  case (SetParams p)
  with assms show ?thesis by (auto simp: perform_def index_in_bar_def setParams_def)
next
  case (SetPattern pat)
  with assms show ?thesis by (auto simp: perform_def index_in_bar_def setPattern_def)
next
  case EffectsRun
  with assms show ?thesis by (auto simp: perform_def index_in_bar_def sync_refs_def)
next
  case (SelectOutput i)
  with assms show ?thesis by (auto simp: perform_def index_in_bar_def)
next
  case (MidiGranted outs)
  with assms show ?thesis by (auto simp: perform_def index_in_bar_def)
qed

lemma index_in_bar_run:
  "index_in_bar s \<Longrightarrow> run fuel as s = Some (Inr s') \<Longrightarrow> index_in_bar s'"
proof (induction as arbitrary: s)
  case Nil
  then show ?case by simp
next
  case (Cons a as)
  from Cons.prems(2) obtain s1 where s1: "perform fuel a s = Some (Inr s1)"
    and rest: "run fuel as s1 = Some (Inr s')"
    by (auto simp: and_then_def split: option.splits sum.splits)
  have "index_in_bar s1" using Cons.prems(1) s1 by (rule index_in_bar_perform)
  then show ?case using rest by (rule Cons.IH)
qed

lemma reachable_index:
  "run fuel as (initial_App p0 pat0) = Some (Inr s) \<Longrightarrow> index_in_bar s"
proof -
  have "index_in_bar (initial_App p0 pat0)"
    by (simp add: index_in_bar_def initial_App_def STEPS_PER_BAR_def)
  then show "run fuel as (initial_App p0 pat0) = Some (Inr s) \<Longrightarrow> index_in_bar s"
    by (rule index_in_bar_run)
qed

subsection \<open>The look-ahead loop returns\<close>

lemma scheduleNote_body_cursor:
  "scheduleNote_body p pat i t s = Inr s' \<Longrightarrow>
   paramsRef s' = paramsRef s \<and> now s' = now s \<and> nextNoteTime s' = nextNoteTime s"
  by (auto simp: scheduleNote_body_def Let_def setTimeout_def now_def scheduleStep_ctx_currentTime
        split: option.splits if_splits)

lemma scheduler_loop_more_fuel:
  "scheduler_loop fuel s = Some r \<Longrightarrow> scheduler_loop (Suc fuel) s = Some r"
proof (induction fuel arbitrary: s)
  case 0
  then show ?case by simp
next
  case (Suc k)
  show ?case
  proof (cases "nextNoteTime s < now s + SCHEDULE_AHEAD_TIME")
    case False
    with Suc.prems show ?thesis by simp
  next
    case True
    show ?thesis
    proof (cases "scheduleNote (currentStepRef s) (nextNoteTime s) s")
      case (Inl e)
      then have "scheduler_loop (Suc k) s = Some (Inl e)" "scheduler_loop (Suc (Suc k)) s = Some (Inl e)"
        using True by simp_all
      with Suc.prems show ?thesis by simp
    next
      case (Inr s1)
      with Suc.prems True have "scheduler_loop k (nextNote s1) = Some r" by simp
      then have "scheduler_loop (Suc k) (nextNote s1) = Some r" by (rule Suc.IH)
      with Inr True show ?thesis by simp
    qed
  qed
qed

text \<open>
  With a positive tempo every pass moves \<open>nextNoteTime\<close> forward by the same positive
  amount while the clock stands still, so the loop returns: some amount of fuel is enough.
\<close>

lemma scheduler_loop_returns:
  assumes "0 < tempo (paramsRef s)"
  shows "\<exists>fuel r. scheduler_loop fuel s = Some r"
proof -
  define d where "d = 15 / tempo (paramsRef s)"
  have dpos: "0 < d" using assms by (simp add: d_def)
  have "\<exists>fuel r. scheduler_loop fuel s' = Some r"
    if "paramsRef s' = paramsRef s" and "now s' + SCHEDULE_AHEAD_TIME - nextNoteTime s' \<le> real n * d"
    for n s'
    using that
  proof (induction n arbitrary: s')
    case 0
    then have "\<not> nextNoteTime s' < now s' + SCHEDULE_AHEAD_TIME" by simp
    then have "scheduler_loop (Suc 0) s' = Some (Inr s')" by simp
    then show ?case by blast
  next
    case (Suc n)
    show ?case
    proof (cases "nextNoteTime s' < now s' + SCHEDULE_AHEAD_TIME")
      case False
      then have "scheduler_loop (Suc 0) s' = Some (Inr s')" by simp
      then show ?thesis by blast
    next
      case True
      show ?thesis
      proof (cases "scheduleNote (currentStepRef s') (nextNoteTime s') s'")
        case (Inl e)
        with True have "scheduler_loop (Suc 0) s' = Some (Inl e)" by simp
        then show ?thesis by blast
      next
        case (Inr s1)
        then have c: "paramsRef s1 = paramsRef s'" "now s1 = now s'" "nextNoteTime s1 = nextNoteTime s'"
          using scheduleNote_body_cursor [of "paramsRef s'" "patternRef s'" "currentStepRef s'"
              "nextNoteTime s'" s' s1]
          by (simp_all add: scheduleNote_def)
        have p: "paramsRef (nextNote s1) = paramsRef s"
          using c Suc.prems(1) by (simp add: nextNote_def)
        have "now (nextNote s1) = now s'" "nextNoteTime (nextNote s1) = nextNoteTime s' + d"
          using c Suc.prems(1) by (simp_all add: nextNote_def now_def secondsPerStep_def d_def)
        then have "now (nextNote s1) + SCHEDULE_AHEAD_TIME - nextNoteTime (nextNote s1) \<le> real n * d"
          using Suc.prems(2) by (simp add: algebra_simps)
        from Suc.IH [OF p this] obtain fuel r where "scheduler_loop fuel (nextNote s1) = Some r"
          by blast
        with True Inr have "scheduler_loop (Suc fuel) s' = Some r" by simp
        then show ?thesis by blast
      qed
    qed
  qed
  moreover have "now s + SCHEDULE_AHEAD_TIME - nextNoteTime s \<le>
      real (nat \<lceil>(now s + SCHEDULE_AHEAD_TIME - nextNoteTime s) / d\<rceil>) * d"
  proof -
    have "(now s + SCHEDULE_AHEAD_TIME - nextNoteTime s) / d \<le>
        real (nat \<lceil>(now s + SCHEDULE_AHEAD_TIME - nextNoteTime s) / d\<rceil>)"
      by (rule real_nat_ceiling_ge)
    then show ?thesis using dpos by (simp add: pos_divide_le_eq)
  qed
  ultimately show ?thesis by blast
qed

lemma startSequencer_returns:
  assumes "0 < tempo (paramsRef s)"
  shows "\<exists>fuel r. startSequencer fuel s = Some r"
proof (cases "playState s = PLAYING")
  case True
  then show ?thesis by (simp add: startSequencer_def)
next
  case False
  let ?s0 = "s\<lparr>audioEngine := resume (audioEngine s), isPlayingRef := True, currentStepRef := 0,
                 nextNoteTime := ctx_currentTime (resume (audioEngine s)) + 0.05\<rparr>"
  have "0 < tempo (paramsRef ?s0)" using assms by simp
  then obtain fuel r where "scheduler_loop fuel ?s0 = Some r"
    using scheduler_loop_returns by blast
  then show ?thesis
    using False by (auto simp: startSequencer_def scheduler_def)
qed

subsection \<open>The bookkeeping invariant\<close>

lemma tick_inv_initial: "tick_inv (initial_App p0 pat0)"
  by (simp add: tick_inv_def initial_App_def pending_ticks_def)

lemma tick_inv_startSequencer:
  assumes "tick_inv s" and "startSequencer fuel s = Some (Inr s')"
  shows "tick_inv s'"
proof (cases "playState s = PLAYING")
  case True
  with assms show ?thesis by (simp add: startSequencer_def)
next
  case False
  then have stopped: "playState s = STOPPED" by (cases "playState s") simp_all
  let ?s0 = "s\<lparr>audioEngine := resume (audioEngine s), isPlayingRef := True, currentStepRef := 0,
                 nextNoteTime := ctx_currentTime (resume (audioEngine s)) + 0.05\<rparr>"
  have run: "map_option (map_sum id (\<lambda>s2. s2\<lparr>playState := PLAYING\<rparr>)) (scheduler fuel ?s0) =
               Some (Inr s')"
    using assms(2) False by (simp add: startSequencer_def)
  obtain s2 where s2: "scheduler fuel ?s0 = Some (Inr s2)" and s': "s' = s2\<lparr>playState := PLAYING\<rparr>"
    using map_result_InrD [OF run] by blast
  have "pending_ticks ?s0 = []" "0 < next_timer_id ?s0"
    using assms(1) stopped by (simp_all add: tick_inv_def pending_ticks_def)
  from scheduler_tick_inv [OF s2 this] show ?thesis
    by (simp add: tick_inv_def s' pending_ticks_def)
qed

lemma pending_ticks_clear:
  "pending_ticks (advance_clock d (clearTimeout i s)) =
     filter (\<lambda>t. timer_id t \<noteq> i) (pending_ticks s)"
  by (simp add: pending_ticks_def advance_clock_def clearTimeout_def conj_commute)

lemma ticks_share_id:
  assumes "list_all (\<lambda>t. timerID s = Some (timer_id t) \<and> timer_id t \<noteq> 0) (pending_ticks s)"
    and "timerID s = Some i"
  shows "filter (\<lambda>t. timer_id t \<noteq> i) (pending_ticks s) = []"
  using assms by (auto simp: filter_empty_conv list_all_iff)

lemma tick_inv_stopSequencer:
  assumes "tick_inv s"
  shows "pending_ticks (stopSequencer s) = [] \<and> tick_inv (stopSequencer s)"
proof -
  have all: "list_all (\<lambda>t. timerID s = Some (timer_id t) \<and> timer_id t \<noteq> 0) (pending_ticks s)"
    and pos: "0 < next_timer_id s"
    using assms by (simp_all add: tick_inv_def)
  have "pending_ticks (stopSequencer s) = []"
  proof (cases "timerID s")
    case None
    with all have "pending_ticks s = []" by (cases "pending_ticks s") simp_all
    with None show ?thesis by (simp add: stopSequencer_def Let_def pending_ticks_def)
  next
    case (Some i)
    show ?thesis
    proof (cases "i = 0")
      case True
      with all Some have "pending_ticks s = []" by (cases "pending_ticks s") auto
      with Some True show ?thesis by (simp add: stopSequencer_def Let_def pending_ticks_def)
    next
      case False
      have "filter (\<lambda>t. timer_id t \<noteq> i) (pending_ticks s) = []"
        using all Some by (rule ticks_share_id)
      with Some False show ?thesis
        by (simp add: stopSequencer_def Let_def pending_ticks_def clearTimeout_def conj_commute)
    qed
  qed
  moreover have "0 < next_timer_id (stopSequencer s)"
    using pos by (simp add: stopSequencer_def Let_def clearTimeout_def split: option.splits)
  ultimately show ?thesis by (simp add: tick_inv_def)
qed

lemma find_timer:
  assumes "find (\<lambda>t. timer_id t = i) (timers s) = Some t"
  shows "t \<in> set (timers s) \<and> timer_id t = i"
  using assms by (auto simp: find_Some_iff)

lemma tick_inv_sublist:
  assumes "tick_inv s"
    and "pending_ticks s' = filter q (pending_ticks s)"
    and "timerID s' = timerID s" and "playState s' = playState s"
    and "next_timer_id s \<le> next_timer_id s'"
  shows "tick_inv s'"
  using assms by (auto simp: tick_inv_def list_all_iff)

lemma tick_inv_fire_timer:
  assumes inv: "tick_inv s" and run: "fire_timer fuel i s = Some (Inr s')"
  shows "tick_inv s'"
proof (cases "find (\<lambda>t. timer_id t = i) (timers s)")
  case None
  with run inv show ?thesis by (simp add: fire_timer_def)
next
  case (Some t)
  let ?s0 = "advance_clock (due t) (clearTimeout i s)"
  have t: "t \<in> set (timers s)" "timer_id t = i" using find_timer [OF Some] by simp_all
  have cb: "run_callback fuel (timer_cb t) ?s0 = Some (Inr s')"
    using run Some by (simp add: fire_timer_def)
  have s0: "pending_ticks ?s0 = filter (\<lambda>t. timer_id t \<noteq> i) (pending_ticks s)"
    "timerID ?s0 = timerID s" "playState ?s0 = playState s" "next_timer_id ?s0 = next_timer_id s"
    by (simp_all add: pending_ticks_clear) (simp_all add: advance_clock_def clearTimeout_def)
  have inv0: "tick_inv ?s0"
    using inv s0 by (auto intro: tick_inv_sublist)
  have tick_case: "tick_inv s'"
    if tk: "is_tick (timer_cb t)"
      and sch: "\<And>s1. pending_ticks ?s0 = [] \<Longrightarrow> 0 < next_timer_id ?s0 \<Longrightarrow>
               0 < next_timer_id s' \<and>
               list_all (\<lambda>t. timerID s' = Some (timer_id t) \<and> timer_id t \<noteq> 0) (pending_ticks s') \<and>
               playState s' = playState ?s0"
  proof -
    have mem: "t \<in> set (pending_ticks s)" using t tk by (simp add: pending_ticks_def)
    then have id: "timerID s = Some i" and playing: "playState s \<noteq> STOPPED"
      using inv t by (auto simp: tick_inv_def list_all_iff)
    have "filter (\<lambda>t. timer_id t \<noteq> i) (pending_ticks s) = []"
      using inv id by (intro ticks_share_id) (simp_all add: tick_inv_def)
    then have "pending_ticks ?s0 = []" by (simp add: s0)
    moreover have "0 < next_timer_id ?s0" using inv by (simp add: s0 tick_inv_def)
    ultimately show ?thesis
      using sch playing by (simp add: tick_inv_def s0)
  qed
  show ?thesis
  proof (cases "timer_cb t")
    case SchedulerTick
    then have "scheduler fuel ?s0 = Some (Inr s')" using cb by (simp add: run_callback_def)
    then show ?thesis
      using tick_case SchedulerTick scheduler_tick_inv [of fuel ?s0 s'] by simp
  next
    case (LegacySchedulerTick p pat)
    then have "legacy_scheduler fuel p pat ?s0 = Some (Inr s')"
      using cb by (simp add: run_callback_def)
    then show ?thesis
      using tick_case LegacySchedulerTick legacy_scheduler_tick_inv [of fuel p pat ?s0 s'] by simp
  next
    case (SetCurrentStep n)
    then have "s' = ?s0\<lparr>currentStep := n\<rparr>" using cb by (simp add: run_callback_def)
    then show ?thesis
      using inv0 by (simp add: tick_inv_def pending_ticks_def)
  next
    case (MidiNoteOn n v step d)
    then show ?thesis
      using cb inv0
      by (auto simp: run_callback_def Let_def setTimeout_def tick_inv_def pending_ticks_def)
  next
    case (MidiNoteOff n)
    then show ?thesis
      using cb inv0 by (auto simp: run_callback_def tick_inv_def pending_ticks_def)
  qed
qed

subsection \<open>After the stop\<close>

lemma filter_filter_shorter:
  assumes "t \<in> set xs" and "P t" and "\<not> Q t"
  shows "length (filter P (filter Q xs)) < length (filter P xs)"
proof -
  have "length (filter Q (filter P xs)) < length (filter P xs)"
    using assms by (intro length_filter_less [of t]) simp_all
  then show ?thesis by (simp add: conj_commute)
qed

lemma note_on_messages_sendNoteOn:
  "length (note_on_messages (sendNoteOn n v svc w)) \<le> Suc (length (note_on_messages w))"
  by (simp add: sendNoteOn_def note_on_messages_def split: option.splits)

lemma note_on_messages_sendNoteOff:
  "note_on_messages (sendNoteOff n svc w) = note_on_messages w"
  by (simp add: sendNoteOff_def note_on_messages_def split: option.splits)

lemma fire_timer_quiet:
  assumes quiet: "pending_ticks s = []"
  shows "\<exists>s'. fire_timer fuel i s = Some (Inr s') \<and> pending_ticks s' = [] \<and>
              playState s' = playState s \<and>
              without_clock (audioEngine s') = without_clock (audioEngine s) \<and>
              note_on_budget s' \<le> note_on_budget s"
proof (cases "find (\<lambda>t. timer_id t = i) (timers s)")
  case None
  then show ?thesis using quiet by (simp add: fire_timer_def)
next
  case (Some t)
  let ?s0 = "advance_clock (due t) (clearTimeout i s)"
  have t: "t \<in> set (timers s)" "timer_id t = i" using find_timer [OF Some] by simp_all
  have no_tick: "\<not> is_tick (timer_cb t)"
    using quiet t by (auto simp: pending_ticks_def filter_empty_conv)
  have run: "fire_timer fuel i s = run_callback fuel (timer_cb t) ?s0"
    using Some by (simp add: fire_timer_def)
  have q0: "pending_ticks ?s0 = []" using quiet by (simp add: pending_ticks_clear)
  have "pending_note_ons ?s0 = filter (\<lambda>t. timer_id t \<noteq> i) (pending_note_ons s)"
    by (simp add: pending_note_ons_def advance_clock_def clearTimeout_def conj_commute)
  then have p0: "length (pending_note_ons ?s0) \<le> length (pending_note_ons s)"
    by simp
  have m0: "midi_out ?s0 = midi_out s" "midiService ?s0 = midiService s" "playState ?s0 = playState s"
    by (simp_all add: advance_clock_def clearTimeout_def)
  have e0: "without_clock (audioEngine ?s0) = without_clock (audioEngine s)"
    by (simp add: advance_clock_def clearTimeout_def without_clock_def)
  show ?thesis
  proof (cases "timer_cb t")
    case SchedulerTick
    with no_tick show ?thesis by simp
  next
    case (LegacySchedulerTick p pat)
    with no_tick show ?thesis by simp
  next
    case (SetCurrentStep n)
    have "note_on_budget (?s0\<lparr>currentStep := n\<rparr>) \<le> note_on_budget s"
      using p0 by (simp add: note_on_budget_def pending_note_ons_def m0)
    then show ?thesis
      using SetCurrentStep q0 e0
      by (simp add: run run_callback_def pending_ticks_def m0)
  next
    case (MidiNoteOn n v step d)
    let ?s1 = "?s0\<lparr>midi_out := sendNoteOn n v (midiService ?s0) (midi_out ?s0)\<rparr>"
    let ?s2 = "snd (setTimeout (MidiNoteOff n) ((if slide step then d * 1.05 else d * 0.7) * 1000) ?s1)"
    have r: "fire_timer fuel i s = Some (Inr ?s2)"
      using MidiNoteOn by (simp add: run run_callback_def Let_def)
    have less: "length (pending_note_ons ?s0) < length (pending_note_ons s)"
      using filter_filter_shorter [of t "timers s" "\<lambda>t. is_note_on_timer (timer_cb t)"
          "\<lambda>t. timer_id t \<noteq> i"] t MidiNoteOn
      by (simp add: pending_note_ons_def advance_clock_def clearTimeout_def)
    have "pending_note_ons ?s2 = pending_note_ons ?s0"
      by (simp add: pending_note_ons_def setTimeout_def)
    moreover have "length (note_on_messages (midi_out ?s2)) \<le> Suc (length (note_on_messages (midi_out s)))"
      using note_on_messages_sendNoteOn [of n v "midiService s" "midi_out s"]
      by (simp add: setTimeout_def m0)
    ultimately have b: "note_on_budget ?s2 \<le> note_on_budget s"
      using less by (simp add: note_on_budget_def)
    have "pending_ticks ?s2 = []"
      using q0 by (simp add: pending_ticks_def setTimeout_def)
    moreover have "playState ?s2 = playState s"
      by (simp add: setTimeout_def m0)
    moreover have "without_clock (audioEngine ?s2) = without_clock (audioEngine s)"
      using e0 by (simp add: setTimeout_def)
    ultimately show ?thesis using r b by blast
  next
    case (MidiNoteOff n)
    let ?s1 = "?s0\<lparr>midi_out := sendNoteOff n (midiService ?s0) (midi_out ?s0)\<rparr>"
    have r: "fire_timer fuel i s = Some (Inr ?s1)"
      using MidiNoteOff by (simp add: run run_callback_def)
    have "note_on_budget ?s1 \<le> note_on_budget s"
      using p0 by (simp add: note_on_budget_def pending_note_ons_def m0 note_on_messages_sendNoteOff)
    moreover have "pending_ticks ?s1 = []" using q0 by (simp add: pending_ticks_def)
    moreover have "playState ?s1 = playState s" by (simp add: m0)
    moreover have "without_clock (audioEngine ?s1) = without_clock (audioEngine s)"
      using e0 by simp
    ultimately show ?thesis using r by blast
  qed
qed

lemma perform_quiet:
  assumes "pending_ticks s = []" and "a \<noteq> StartSequencer" and "a \<noteq> StopSequencer"
  shows "\<exists>s'. perform fuel a s = Some (Inr s') \<and> pending_ticks s' = [] \<and>
              playState s' = playState s \<and>
              without_clock (audioEngine s') = without_clock (audioEngine s) \<and>
              note_on_budget s' \<le> note_on_budget s"
proof (cases a)
  case (TimerFires i)
  then show ?thesis using fire_timer_quiet [OF assms(1), of fuel i] by (simp add: perform_def)
next
  case (TimePasses t)
  then show ?thesis
    using assms(1)
    by (simp add: perform_def advance_clock_def pending_ticks_def without_clock_def
          note_on_budget_def pending_note_ons_def)
qed (use assms in \<open>simp_all add: perform_def pending_ticks_def note_on_budget_def
       pending_note_ons_def setParams_def setPattern_def sync_refs_def\<close>)

lemma run_quiet:
  assumes "pending_ticks s = []" and "StartSequencer \<notin> set as" and "StopSequencer \<notin> set as"
  shows "\<exists>s'. run fuel as s = Some (Inr s') \<and> pending_ticks s' = [] \<and>
              playState s' = playState s \<and>
              without_clock (audioEngine s') = without_clock (audioEngine s) \<and>
              note_on_budget s' \<le> note_on_budget s"
  using assms
proof (induction as arbitrary: s)
  case Nil
  then show ?case by simp
next
  case (Cons a as)
  have "a \<noteq> StartSequencer" "a \<noteq> StopSequencer" using Cons.prems(2,3) by auto
  then obtain s1 where s1: "perform fuel a s = Some (Inr s1)" "pending_ticks s1 = []"
      "playState s1 = playState s"
      "without_clock (audioEngine s1) = without_clock (audioEngine s)"
      "note_on_budget s1 \<le> note_on_budget s"
    using perform_quiet [OF Cons.prems(1), of a fuel] by blast
  have "StartSequencer \<notin> set as" "StopSequencer \<notin> set as" using Cons.prems(2,3) by auto
  then obtain s2 where s2: "run fuel as s1 = Some (Inr s2)" "pending_ticks s2 = []"
      "playState s2 = playState s1"
      "without_clock (audioEngine s2) = without_clock (audioEngine s1)"
      "note_on_budget s2 \<le> note_on_budget s1"
    using Cons.IH [OF s1(2)] by blast
  show ?case using s1 s2 by (simp add: and_then_def)
qed

subsection \<open>Every reachable state keeps the invariant\<close>

lemma scheduleNote_body_voice:
  "scheduleNote_body p pat i t s = Inr s' \<Longrightarrow> voice_inv (audioEngine s) \<Longrightarrow>
   voice_inv (audioEngine s')"
  by (auto simp: scheduleNote_body_def Let_def setTimeout_def voice_inv_scheduleStep
        split: option.splits if_splits)

lemma scheduler_loop_voice:
  "scheduler_loop fuel s = Some (Inr s') \<Longrightarrow> voice_inv (audioEngine s) \<Longrightarrow>
   voice_inv (audioEngine s')"
proof (induction fuel arbitrary: s)
  case 0
  then show ?case by simp
next
  case (Suc k)
  show ?case
  proof (cases "nextNoteTime s < now s + SCHEDULE_AHEAD_TIME")
    case False
    with Suc.prems show ?thesis by simp
  next
    case True
    with Suc.prems(1) obtain s1 where
      s1: "scheduleNote (currentStepRef s) (nextNoteTime s) s = Inr s1"
      and rest: "scheduler_loop k (nextNote s1) = Some (Inr s')"
      by (auto split: sum.splits)
    have "voice_inv (audioEngine s1)"
      using s1 Suc.prems(2) by (simp add: scheduleNote_def scheduleNote_body_voice)
    then have "voice_inv (audioEngine (nextNote s1))" by (simp add: nextNote_def)
    with rest show ?thesis by (rule Suc.IH)
  qed
qed

lemma legacy_scheduler_loop_voice:
  "legacy_scheduler_loop fuel p pat s = Some (Inr s') \<Longrightarrow> voice_inv (audioEngine s) \<Longrightarrow>
   voice_inv (audioEngine s')"
proof (induction fuel arbitrary: s)
  case 0
  then show ?case by simp
next
  case (Suc k)
  show ?case
  proof (cases "nextNoteTime s < now s + SCHEDULE_AHEAD_TIME")
    case False
    with Suc.prems show ?thesis by simp
  next
    case True
    with Suc.prems(1) obtain s1 where
      s1: "scheduleNote_body p pat (currentStepRef s) (nextNoteTime s) s = Inr s1"
      and rest: "legacy_scheduler_loop k p pat (legacy_nextNote p s1) = Some (Inr s')"
      by (auto split: sum.splits)
    have "voice_inv (audioEngine s1)"
      using s1 Suc.prems(2) by (rule scheduleNote_body_voice)
    then have "voice_inv (audioEngine (legacy_nextNote p s1))" by (simp add: legacy_nextNote_def)
    with rest show ?thesis by (rule Suc.IH)
  qed
qed

lemma rearm_engine: "audioEngine (rearm cb s) = audioEngine s"
  by (simp add: rearm_def setTimeout_def)

lemma scheduler_voice:
  assumes "scheduler fuel s = Some (Inr s')" and "voice_inv (audioEngine s)"
  shows "voice_inv (audioEngine s')"
proof -
  obtain s1 where "scheduler_loop fuel s = Some (Inr s1)" and "s' = rearm SchedulerTick s1"
    using map_result_InrD [OF assms(1) [unfolded scheduler_def]] by blast
  then show ?thesis using scheduler_loop_voice assms(2) by (simp add: rearm_engine)
qed

lemma legacy_scheduler_voice:
  assumes "legacy_scheduler fuel p pat s = Some (Inr s')" and "voice_inv (audioEngine s)"
  shows "voice_inv (audioEngine s')"
proof -
  obtain s1 where "legacy_scheduler_loop fuel p pat s = Some (Inr s1)"
    and "s' = rearm (LegacySchedulerTick p pat) s1"
    using map_result_InrD [OF assms(1) [unfolded legacy_scheduler_def]] by blast
  then show ?thesis using legacy_scheduler_loop_voice assms(2) by (simp add: rearm_engine)
qed

lemma voice_inv_clock: "voice_inv (eng\<lparr>ctx_currentTime := t\<rparr>) = voice_inv eng"
  by (simp add: voice_inv_def)

lemma voice_inv_resume: "voice_inv (resume eng) = voice_inv eng"
  by (simp add: voice_inv_def resume_def)

lemma app_inv_initial: "app_inv (initial_App p0 pat0)"
proof -
  have "audioEngine (initial_App p0 pat0) = new_AudioEngine" "playState (initial_App p0 pat0) = STOPPED"
    by (simp_all add: initial_App_def)
  moreover have "osc new_AudioEngine = None" by (simp add: new_AudioEngine_def)
  ultimately show ?thesis
    using tick_inv_initial [of p0 pat0] voice_inv_new by (simp add: app_inv_def)
qed

lemma app_inv_startSequencer:
  assumes "app_inv s" and "startSequencer fuel s = Some (Inr s')"
  shows "app_inv s'"
proof (cases "playState s = PLAYING")
  case True
  with assms show ?thesis by (simp add: startSequencer_def)
next
  case False
  let ?s0 = "s\<lparr>audioEngine := resume (audioEngine s), isPlayingRef := True, currentStepRef := 0,
                 nextNoteTime := ctx_currentTime (resume (audioEngine s)) + 0.05\<rparr>"
  have run: "map_option (map_sum id (\<lambda>s2. s2\<lparr>playState := PLAYING\<rparr>)) (scheduler fuel ?s0) =
               Some (Inr s')"
    using assms(2) False by (simp add: startSequencer_def)
  obtain s2 where s2: "scheduler fuel ?s0 = Some (Inr s2)" and s': "s' = s2\<lparr>playState := PLAYING\<rparr>"
    using map_result_InrD [OF run] by blast
  have "voice_inv (audioEngine ?s0)"
    using assms(1) by (simp add: app_inv_def voice_inv_resume)
  then have "voice_inv (audioEngine s2)" by (rule scheduler_voice [OF s2])
  moreover have "tick_inv s"
    using assms(1) by (simp add: app_inv_def)
  then have "tick_inv s'"
    using assms(2) by (rule tick_inv_startSequencer)
  ultimately show ?thesis by (simp add: app_inv_def s')
qed

lemma app_inv_stopSequencer:
  assumes "app_inv s"
  shows "app_inv (stopSequencer s)"
proof -
  have "tick_inv (stopSequencer s)"
    using assms tick_inv_stopSequencer [of s] by (simp add: app_inv_def)
  moreover have "audioEngine (stopSequencer s) = stop (audioEngine s)"
    by (simp add: stopSequencer_def Let_def clearTimeout_def split: option.splits)
  ultimately show ?thesis
    using assms by (simp add: app_inv_def voice_inv_stop osc_stop)
qed

lemma app_inv_fire_timer:
  assumes inv: "app_inv s" and run: "fire_timer fuel i s = Some (Inr s')"
  shows "app_inv s'"
proof -
  have "tick_inv s" using inv by (simp add: app_inv_def)
  then have ti: "tick_inv s'" using run by (rule tick_inv_fire_timer)
  have v: "voice_inv (audioEngine s)" using inv by (simp add: app_inv_def)
  show ?thesis
  proof (cases "pending_ticks s = []")
    case True
    obtain s1 where "fire_timer fuel i s = Some (Inr s1)" "playState s1 = playState s"
      "without_clock (audioEngine s1) = without_clock (audioEngine s)"
      using fire_timer_quiet [OF True, of fuel i] by blast
    with run have same: "playState s' = playState s"
      "without_clock (audioEngine s') = without_clock (audioEngine s)"
      by simp_all
    have "voice_inv (audioEngine s')"
      using v voice_inv_without_clock [OF same(2)] by simp
    moreover have "osc (audioEngine s') = osc (audioEngine s)"
      using same(2) by (rule osc_without_clock)
    ultimately show ?thesis
      using inv ti same(1) by (simp add: app_inv_def)
  next
    case False
    then have playing: "playState s = PLAYING"
      using inv by (cases "playState s") (simp_all add: app_inv_def tick_inv_def)
    show ?thesis
    proof (cases "find (\<lambda>t. timer_id t = i) (timers s)")
      case None
      with run inv show ?thesis by (simp add: fire_timer_def)
    next
      case (Some t)
      let ?s0 = "advance_clock (due t) (clearTimeout i s)"
      have cb: "run_callback fuel (timer_cb t) ?s0 = Some (Inr s')"
        using run Some by (simp add: fire_timer_def)
      have v0: "voice_inv (audioEngine ?s0)" "playState ?s0 = PLAYING"
        using v playing by (simp_all add: advance_clock_def clearTimeout_def voice_inv_clock)
      have "voice_inv (audioEngine s') \<and> playState s' = PLAYING"
      proof (cases "timer_cb t")
        case SchedulerTick
        then have sch: "scheduler fuel ?s0 = Some (Inr s')" using cb by (simp add: run_callback_def)
        obtain s1 where "scheduler_loop fuel ?s0 = Some (Inr s1)" and "s' = rearm SchedulerTick s1"
          using map_result_InrD [OF sch [unfolded scheduler_def]] by blast
        then have "playState s' = PLAYING"
          using scheduler_loop_frame [of fuel ?s0 s1] v0(2)
          by (simp add: loop_frame_def rearm_def setTimeout_def)
        then show ?thesis using scheduler_voice [OF sch v0(1)] by simp
      next
        case (LegacySchedulerTick p pat)
        then have sch: "legacy_scheduler fuel p pat ?s0 = Some (Inr s')"
          using cb by (simp add: run_callback_def)
        obtain s1 where "legacy_scheduler_loop fuel p pat ?s0 = Some (Inr s1)"
          and "s' = rearm (LegacySchedulerTick p pat) s1"
          using map_result_InrD [OF sch [unfolded legacy_scheduler_def]] by blast
        then have "playState s' = PLAYING"
          using legacy_scheduler_loop_frame [of fuel p pat ?s0 s1] v0(2)
          by (simp add: loop_frame_def rearm_def setTimeout_def)
        then show ?thesis using legacy_scheduler_voice [OF sch v0(1)] by simp
      next
        case (SetCurrentStep n)
        then show ?thesis using cb v0 by (auto simp: run_callback_def)
      next
        case (MidiNoteOn n vel step d)
        then show ?thesis using cb v0 by (auto simp: run_callback_def Let_def setTimeout_def)
      next
        case (MidiNoteOff n)
        then show ?thesis using cb v0 by (auto simp: run_callback_def)
      qed
      then show ?thesis using ti by (simp add: app_inv_def)
    qed
  qed
qed

lemma app_inv_perform:
  assumes "app_inv s" and "perform fuel a s = Some (Inr s')"
  shows "app_inv s'"
proof (cases a)
  case StartSequencer
  with assms show ?thesis by (auto simp: perform_def intro: app_inv_startSequencer)
next
  case StopSequencer
  with assms show ?thesis by (auto simp: perform_def intro: app_inv_stopSequencer)
next
  case (TimerFires i)
  with assms show ?thesis by (auto simp: perform_def intro: app_inv_fire_timer)
next
  case (TimePasses t)
  with assms show ?thesis
    by (auto simp: perform_def app_inv_def tick_inv_def pending_ticks_def advance_clock_def
          voice_inv_clock)
next
  case (SetParams p)
  with assms show ?thesis
    by (auto simp: perform_def app_inv_def tick_inv_def pending_ticks_def setParams_def)
next
  case (SetPattern pat)
  with assms show ?thesis
    by (auto simp: perform_def app_inv_def tick_inv_def pending_ticks_def setPattern_def)
next
  case EffectsRun
  with assms show ?thesis
    by (auto simp: perform_def app_inv_def tick_inv_def pending_ticks_def sync_refs_def)
next
  case (SelectOutput i)
  with assms show ?thesis
    by (auto simp: perform_def app_inv_def tick_inv_def pending_ticks_def)
next
  case (MidiGranted outs)
  with assms show ?thesis
    by (auto simp: perform_def app_inv_def tick_inv_def pending_ticks_def)
qed

lemma app_inv_run:
  "app_inv s \<Longrightarrow> run fuel as s = Some (Inr s') \<Longrightarrow> app_inv s'"
proof (induction as arbitrary: s)
  case Nil
  then show ?case by simp
next
  case (Cons a as)
  from Cons.prems(2) obtain s1 where s1: "perform fuel a s = Some (Inr s1)"
    and rest: "run fuel as s1 = Some (Inr s')"
    by (auto simp: and_then_def split: option.splits sum.splits)
  have "app_inv s1" using Cons.prems(1) s1 by (rule app_inv_perform)
  then show ?case using rest by (rule Cons.IH)
qed

lemma reachable_inv:
  "run fuel as (initial_App p0 pat0) = Some (Inr s) \<Longrightarrow> app_inv s"
  using app_inv_initial by (rule app_inv_run)

subsection \<open>The panic\<close>

lemma stopSequencer_panic:
  assumes "selected_output (midiService s) = Some out"
  shows "midi_out (stopSequencer s) = midi_out s @ map (\<lambda>i. (out, [0x80, int i, 0])) [0..<128]"
  using assms
  by (simp add: stopSequencer_def Let_def stopAll_def clearTimeout_def split: option.splits)

lemma panic_covers:
  assumes "0 \<le> b" and "b \<le> 127"
  shows "(out, [0x80, b, 0]) \<in> set (map (\<lambda>i. (out, [0x80, int i, 0])) [0..<128])"
proof -
  have "nat b \<in> set [0..<128]" using assms by simp
  moreover have "(out, [0x80, b, 0]) = (\<lambda>i. (out, [0x80, int i, 0])) (nat b)"
    using assms by simp
  ultimately show ?thesis unfolding set_map by (rule image_eqI [rotated])
qed

lemma stopSequencer_fields:
  "\<not> isPlayingRef (stopSequencer s) \<and> playState (stopSequencer s) = STOPPED \<and>
   currentStep (stopSequencer s) = - 1"
  by (simp add: stopSequencer_def Let_def clearTimeout_def split: option.splits)

lemma stopSequencer_timers:
  "t \<in> set (timers s) \<Longrightarrow> timerID s \<noteq> Some (timer_id t) \<Longrightarrow>
   t \<in> set (timers (stopSequencer s))"
  by (auto simp: stopSequencer_def Let_def clearTimeout_def split: option.splits)

subsection \<open>Concrete runs\<close>

lemmas step_values =
  scheduleStep_calls_def baseMidi_def stepQ_def resValue_def activeVol_def baseCutoff_def
  peakFilter_def activeEnvMod_def decayTime_def activeDecay_def accentIntensity_def

lemmas demo_values =
  note_step_def rest_step_def slide_step_def demo_params_def demo_pattern_def demo_App_def
  initial_App_def new_AudioEngine_def silent_pattern_def edited_pattern_def
  edited_params_def edit_then_tick_def

lemmas engine_values =
  scheduleStep_def run_calls_def on_param_def schedule_def insert_event_def
  cancelScheduledValues_def stop_def resume_def createOscillator_def

lemmas app_values =
  startSequencer_def scheduler_def scheduleNote_def scheduleNote_body_def nextNote_def
  setTimeout_def clearTimeout_def now_def at_index_def STEPS_PER_BAR_def SCHEDULE_AHEAD_TIME_def
  LOOKAHEAD_def rearm_def stopSequencer_def secondsPerStep_def signed_modulo_int_def duration_def
  legacy_startSequencer_def legacy_scheduler_def legacy_nextNote_def
  fire_timer_def run_callback_def advance_clock_def and_then_def perform_def
  setParams_def setPattern_def sync_refs_def

lemma demo_playing_fields:
  "playState demo_playing = PLAYING \<and> isPlayingRef demo_playing \<and>
   timerID demo_playing = Some 3 \<and> next_timer_id demo_playing = 4 \<and>
   midi_out demo_playing = [] \<and> midiService demo_playing = midiService demo_App \<and>
   timers demo_playing =
     [\<lparr>timer_id = 1, due = 1 / 20, timer_cb = SetCurrentStep 0\<rparr>,
      \<lparr>timer_id = 2, due = 1 / 20, timer_cb = MidiNoteOn 36 100 note_step (1 / 8)\<rparr>,
      \<lparr>timer_id = 3, due = 1 / 40, timer_cb = SchedulerTick\<rparr>]"
  by (simp add: demo_playing_def step_values demo_values engine_values app_values Let_def
        numeral_2_eq_2)

lemma demo_stopped_fields:
  "playState demo_stopped = STOPPED \<and> \<not> isPlayingRef demo_stopped \<and>
   next_timer_id demo_stopped = 4 \<and>
   midi_out demo_stopped = stopAll (midiService demo_App) [] \<and>
   midiService demo_stopped = midiService demo_App \<and>
   timers demo_stopped =
     [\<lparr>timer_id = 1, due = 1 / 20, timer_cb = SetCurrentStep 0\<rparr>,
      \<lparr>timer_id = 2, due = 1 / 20, timer_cb = MidiNoteOn 36 100 note_step (1 / 8)\<rparr>]"
  using demo_playing_fields
  by (simp add: demo_stopped_def stopSequencer_def Let_def clearTimeout_def)

lemma selected_output_demo: "selected_output (midiService demo_App) = Some ''out-1''"
  by (simp add: demo_App_def initial_App_def selected_output_def)

lemma startSequencer_demo: "startSequencer 2 demo_App = Some (Inr demo_playing)"
  by (simp add: demo_playing_def step_values demo_values engine_values app_values Let_def
        numeral_2_eq_2)

lemma run_demo_playing:
  "run 2 demo_actions (initial_App demo_params demo_pattern) = Some (Inr demo_playing)"
proof -
  have "(initial_App demo_params demo_pattern)
          \<lparr>midiService := setOutput ''out-1''
             ((midiService (initial_App demo_params demo_pattern))\<lparr>midiAccess := Some [''out-1'']\<rparr>)\<rparr> =
        demo_App"
    by (simp add: demo_App_def initial_App_def setOutput_def)
  then show ?thesis
    by (simp add: demo_actions_def perform_def and_then_def startSequencer_demo)
qed

lemma run_append: "run fuel (xs @ ys) s = and_then (run fuel xs s) (run fuel ys)"
  by (induction xs arbitrary: s) (auto simp: and_then_def split: option.splits sum.splits)

lemma run_demo_stopped:
  "run 2 (demo_actions @ [StopSequencer]) (initial_App demo_params demo_pattern) =
     Some (Inr demo_stopped)"
  by (simp add: run_append run_demo_playing and_then_def perform_def demo_stopped_def)

lemma demo_playing_cursor:
  "nextNoteTime demo_playing = 7 / 40 \<and> currentStepRef demo_playing = 1 \<and>
   paramsRef demo_playing = demo_params"
  by (simp add: demo_playing_def step_values demo_values engine_values app_values Let_def
        numeral_2_eq_2)


section \<open>The claims\<close>

subsection \<open>C1: a stop and the MIDI messages after it\<close>

text \<open>
  C1, as amended. In every state the component reaches, a stop leaves no scheduler tick
  pending, the playing flag off and the transport stopped. When an output port is
  selected at that moment, the stop appends to the wire the panic on that port and
  nothing else: a Note Off for each of the 128 note numbers, 0 to 127. The stop cancels
  only the timer that \<open>timerID\<close> names: every other pending timer stays pending.
  Whatever happens afterwards, short of another start or stop (timers fire, time passes,
  the editor works, ports are granted and selected), the run returns, no tick is pending
  and the transport stays stopped, what is scheduled on the engine stays as the stop left
  it, and the Note On messages on the wire together with the Note On timers still
  pending never exceed their number at the stop: after the stop at most as many Note On
  messages are sent as Note On timers were pending then.
\<close>

theorem C1_stop_ends_scheduling:
  assumes "run fuel0 acts (initial_App p0 pat0) = Some (Inr s)"
  shows "pending_ticks (stopSequencer s) = [] \<and>
         \<not> isPlayingRef (stopSequencer s) \<and> playState (stopSequencer s) = STOPPED \<and>
         (selected_output (midiService s) = Some out \<longrightarrow>
            midi_out (stopSequencer s) = midi_out s @ map (\<lambda>i. (out, [0x80, int i, 0])) [0..<128] \<and>
            (0 \<le> b \<and> b \<le> 127 \<longrightarrow> (out, [0x80, b, 0]) \<in> set (midi_out (stopSequencer s)))) \<and>
         (\<forall>t\<in>set (timers s).
            timerID s \<noteq> Some (timer_id t) \<longrightarrow> t \<in> set (timers (stopSequencer s))) \<and>
         (StartSequencer \<notin> set later \<and> StopSequencer \<notin> set later \<longrightarrow>
            (\<exists>s'. run fuel later (stopSequencer s) = Some (Inr s') \<and>
                  pending_ticks s' = [] \<and> playState s' = STOPPED \<and>
                  without_clock (audioEngine s') = without_clock (audioEngine (stopSequencer s)) \<and>
                  note_on_budget s' \<le> note_on_budget (stopSequencer s)))"
proof -
  have inv: "tick_inv s"
    using reachable_inv [OF assms] by (simp add: app_inv_def)
  have quiet: "pending_ticks (stopSequencer s) = []"
    using tick_inv_stopSequencer [OF inv] by simp
  have panic: "midi_out (stopSequencer s) = midi_out s @ map (\<lambda>i. (out, [0x80, int i, 0])) [0..<128] \<and>
            (0 \<le> b \<and> b \<le> 127 \<longrightarrow> (out, [0x80, b, 0]) \<in> set (midi_out (stopSequencer s)))"
    if "selected_output (midiService s) = Some out"
    using stopSequencer_panic [OF that] panic_covers [of b out] by simp
  have after: "\<exists>s'. run fuel later (stopSequencer s) = Some (Inr s') \<and>
                  pending_ticks s' = [] \<and> playState s' = STOPPED \<and>
                  without_clock (audioEngine s') = without_clock (audioEngine (stopSequencer s)) \<and>
                  note_on_budget s' \<le> note_on_budget (stopSequencer s)"
    if "StartSequencer \<notin> set later" "StopSequencer \<notin> set later"
    using run_quiet [OF quiet that, of fuel] stopSequencer_fields [of s] by auto
  have kept: "\<forall>t\<in>set (timers s).
            timerID s \<noteq> Some (timer_id t) \<longrightarrow> t \<in> set (timers (stopSequencer s))"
    using stopSequencer_timers [of _ s] by blast
  show ?thesis
    using quiet panic stopSequencer_fields [of s] kept after by blast
qed

theorem C1_stop_ends_scheduling_witness:
  "run 2 demo_actions (initial_App demo_params demo_pattern) = Some (Inr demo_playing) \<and>
   pending_ticks demo_playing \<noteq> [] \<and>
   pending_ticks (stopSequencer demo_playing) = [] \<and>
   playState (stopSequencer demo_playing) = STOPPED \<and>
   selected_output (midiService demo_playing) = Some ''out-1'' \<and>
   midi_out (stopSequencer demo_playing) = map (\<lambda>i. (''out-1'', [0x80, int i, 0])) [0..<128] \<and>
   (''out-1'', [0x80, 36, 0]) \<in> set (midi_out (stopSequencer demo_playing)) \<and>
   \<lparr>timer_id = 2, due = 1 / 20, timer_cb = MidiNoteOn 36 100 note_step (1 / 8)\<rparr>
     \<in> set (timers (stopSequencer demo_playing)) \<and>
   (\<exists>s'. run 0 [TimerFires 1, TimerFires 2, TimePasses 1, TimerFires 4] (stopSequencer demo_playing) =
           Some (Inr s') \<and>
         pending_ticks s' = [] \<and> playState s' = STOPPED \<and>
         without_clock (audioEngine s') = without_clock (audioEngine (stopSequencer demo_playing)) \<and>
         note_on_budget s' \<le> 1)"
proof -
  have o: "selected_output (midiService demo_playing) = Some ''out-1''"
    using demo_playing_fields selected_output_demo by simp
  have p: "pending_ticks demo_playing \<noteq> []"
    using demo_playing_fields by (simp add: pending_ticks_def)
  have b: "note_on_budget (stopSequencer demo_playing) = 1"
    using demo_stopped_fields selected_output_demo
    by (simp add: note_on_budget_def pending_note_ons_def demo_stopped_def [symmetric]
          note_on_messages_def stopAll_def filter_empty_conv)
  have m: "midi_out demo_playing = []" using demo_playing_fields by simp
  have t: "\<lparr>timer_id = 2, due = 1 / 20, timer_cb = MidiNoteOn 36 100 note_step (1 / 8)\<rparr>
             \<in> set (timers demo_playing)"
    "timerID demo_playing \<noteq> Some 2"
    using demo_playing_fields by simp_all
  note th = C1_stop_ends_scheduling [OF run_demo_playing, where out = "''out-1''" and b = 36
        and fuel = 0 and later = "[TimerFires 1, TimerFires 2, TimePasses 1, TimerFires 4]"]
  have k: "\<lparr>timer_id = 2, due = 1 / 20, timer_cb = MidiNoteOn 36 100 note_step (1 / 8)\<rparr>
             \<in> set (timers (stopSequencer demo_playing))"
    using th t by auto
  show ?thesis
    using th k by (simp add: o p b m run_demo_playing)
qed

text \<open>
  The claim as it was stated fails: start at time 0 with the first step sounding, stop at
  once, and let the timers that are still pending fire. After the panic the wire carries
  the first step's Note On, and its Note Off after that: the panic is not the last
  message, and a Note On is dispatched after the stop.
\<close>

theorem C1_counterexample:
  "map_option (map_sum id (\<lambda>s. (playState s, midi_out s)))
     (run 2 (demo_actions @ [StopSequencer, TimerFires 1, TimerFires 2, TimerFires 4])
        (initial_App demo_params demo_pattern)) =
     Some (Inr (STOPPED,
                map (\<lambda>i. (''out-1'', [0x80, int i, 0])) [0..<128] @
                [(''out-1'', [0x90, 36, 100]), (''out-1'', [0x80, 36, 0])]))"
proof -
  have o: "selected_output (midiService demo_stopped) = Some ''out-1''"
    using demo_stopped_fields selected_output_demo by simp
  have r: "run 2 (demo_actions @ [StopSequencer, TimerFires 1, TimerFires 2, TimerFires 4])
             (initial_App demo_params demo_pattern) =
           run 2 [TimerFires 1, TimerFires 2, TimerFires 4] demo_stopped"
    using run_append [of 2 "demo_actions @ [StopSequencer]"
        "[TimerFires 1, TimerFires 2, TimerFires 4]" "initial_App demo_params demo_pattern"]
    by (simp add: run_demo_stopped and_then_def)
  show ?thesis
    unfolding r
    using demo_stopped_fields o selected_output_demo
    by (simp add: perform_def and_then_def fire_timer_def run_callback_def clearTimeout_def
          advance_clock_def setTimeout_def Let_def sendNoteOn_def sendNoteOff_def stopAll_def
          note_step_def)
qed

subsection \<open>C2: cancelling before scheduling\<close>

text \<open>
  C2, as amended. For every trigger of an active step, the first call on the amplitude
  gain and the first call on the filter frequency is \<open>cancelScheduledValues(time)\<close>, so
  that afterwards every event at or after the trigger time on these two timelines is one
  this trigger scheduled. On the oscillator frequency and the filter Q the trigger only
  schedules: no call cancels, and every event that was on these timelines stays.
\<close>

theorem C2_cancel_on_gain_and_filter:
  assumes "active step"
  shows "hd (calls_on AmpGain (scheduleStep_calls step nextStep time p dur)) = Cancel AmpGain time \<and>
         hd (calls_on FilterFrequency (scheduleStep_calls step nextStep time p dur)) =
           Cancel FilterFrequency time \<and>
         set (events_from time (ampGain_gain (scheduleStep step nextStep time p dur eng))) \<subseteq>
           set (scheduled_on AmpGain (scheduleStep_calls step nextStep time p dur)) \<and>
         set (events_from time (filter_frequency (scheduleStep step nextStep time p dur eng))) \<subseteq>
           set (scheduled_on FilterFrequency (scheduleStep_calls step nextStep time p dur)) \<and>
         Cancel OscFrequency t' \<notin> set (scheduleStep_calls step nextStep time p dur) \<and>
         Cancel FilterQ t' \<notin> set (scheduleStep_calls step nextStep time p dur) \<and>
         set (timeline FilterQ eng) \<subseteq>
           set (timeline FilterQ (scheduleStep step nextStep time p dur eng)) \<and>
         set (timeline OscFrequency eng) \<subseteq>
           set (timeline OscFrequency (scheduleStep step nextStep time p dur eng))"
proof -
  have "Cancel OscFrequency t' \<notin> set (scheduleStep_calls step nextStep time p dur)"
    "Cancel FilterQ t' \<notin> set (scheduleStep_calls step nextStep time p dur)"
    by (simp_all add: scheduleStep_calls_def split: option.splits)
  then show ?thesis
    using assms gain_events_from_trigger [OF assms] filter_events_from_trigger [OF assms]
      old_events_kept [OF assms]
    by (simp add: calls_on_active)
qed

theorem C2_cancel_on_gain_and_filter_witness:
  "active note_step \<and>
   hd (calls_on AmpGain (scheduleStep_calls note_step (Some rest_step) 0.125 demo_params 0.125)) =
     Cancel AmpGain 0.125 \<and>
   set (events_from 0.125
          (ampGain_gain (scheduleStep note_step (Some rest_step) 0.125 demo_params 0.125 slid_engine))) \<subseteq>
     {SetValueAtTime 0.8 0.125, SetValueAtTime 0.8 0.225, LinearRampToValueAtTime 0 0.245} \<and>
   set (timeline OscFrequency slid_engine) \<subseteq>
     set (timeline OscFrequency
            (scheduleStep note_step (Some rest_step) 0.125 demo_params 0.125 slid_engine))"
proof -
  have a: "active note_step" by (simp add: note_step_def)
  have s: "scheduled_on AmpGain (scheduleStep_calls note_step (Some rest_step) (1 / 8) demo_params (1 / 8)) =
             [SetValueAtTime 0.8 0.125, SetValueAtTime 0.8 0.225, LinearRampToValueAtTime 0 0.245]"
    by (simp add: scheduled_on_def calls_on_active [OF a] activeVol_def)
       (simp add: note_step_def demo_params_def)
  show ?thesis
    using C2_cancel_on_gain_and_filter [OF a, where nextStep = "Some rest_step" and time = "0.125"
        and p = demo_params and dur = "0.125" and eng = slid_engine and t' = 0]
    by (simp add: a s)
qed

text \<open>
  The claim as it was stated fails in ordinary playback: a sliding step at time 0 schedules
  a frequency ramp that ends at 0.125, the time of the next trigger; that trigger's first
  call on the oscillator frequency and on the filter Q is a set-value, not a cancel, and
  the ramp is still on the timeline afterwards, at the trigger time.
\<close>

theorem C2_counterexample:
  "hd (calls_on OscFrequency (scheduleStep_calls note_step (Some rest_step) 0.125 demo_params 0.125)) \<noteq>
     Cancel OscFrequency 0.125 \<and>
   hd (calls_on FilterQ (scheduleStep_calls note_step (Some rest_step) 0.125 demo_params 0.125)) \<noteq>
     Cancel FilterQ 0.125 \<and>
   filter (\<lambda>x. 0.125 \<le> event_time x)
     (timeline OscFrequency (scheduleStep note_step (Some rest_step) 0.125 demo_params 0.125 slid_engine)) =
     [LinearRampToValueAtTime (midi_frequency 36) 0.125, SetValueAtTime (midi_frequency 36) 0.125] \<and>
   scheduled_on OscFrequency (scheduleStep_calls note_step (Some rest_step) 0.125 demo_params 0.125) =
     [SetValueAtTime (midi_frequency 36) 0.125]"
proof -
  have a: "active note_step" "active slide_step" by (simp_all add: note_step_def slide_step_def)
  have b: "baseMidi note_step = 36" "slide slide_step" "\<not> slide note_step" "\<not> active rest_step"
    by (simp_all add: baseMidi_def note_step_def slide_step_def rest_step_def)
  show ?thesis
    by (simp add: calls_on_active [OF a(1)] scheduled_on_def timeline_simps slid_engine_def
          scheduleStep_osc [OF a(1)] scheduleStep_osc [OF a(2)] Let_def b a
          new_AudioEngine_def createOscillator_def schedule_def insert_event_def)
qed

subsection \<open>C3: the pattern and parameters a tick works with\<close>

lemma editor_leaves_enqueued_events:
  "timers (sync_refs (setPattern pat (setParams p s))) = timers s \<and>
   audioEngine (sync_refs (setPattern pat (setParams p s))) = audioEngine s \<and>
   midi_out (sync_refs (setPattern pat (setParams p s))) = midi_out s"
  by (simp add: sync_refs_def setPattern_def setParams_def)

lemma scheduleNote_reads_published:
  "scheduleNote i t (sync_refs (setPattern pat (setParams p s))) =
     scheduleNote_body p pat i t (sync_refs (setPattern pat (setParams p s)))"
  by (simp add: scheduleNote_def sync_refs_def setPattern_def setParams_def)

text \<open>
  C3 holds of \<open>scheduleNote\<close> and \<open>nextNote\<close> in App.tsx, which read the refs when they run
  (the two lemmas above). The older variant of the component does not: there the loop
  started at time 0 with the demo pattern keeps that pattern and tempo. After the editor
  has published a pattern whose step 1 sounds and the tempo 60, the tick that schedules
  step 1 arms no Note On timer for it and advances the cursor by the old 0.125 s; the
  loop of App.tsx, in the same situation, arms the Note On for the new step and advances
  by 0.25 s.
\<close>

theorem C3_legacy_loop_keeps_captured_values:
  "map_option (map_sum id (\<lambda>s. (nextNoteTime s, map timer_cb (timers s))))
     (and_then (legacy_startSequencer 2 demo_App) (run 2 edit_then_tick)) =
     Some (Inr (3 / 10,
                [SetCurrentStep 0, MidiNoteOn 36 100 note_step (1 / 8), SetCurrentStep 1,
                 LegacySchedulerTick demo_params demo_pattern])) \<and>
   map_option (map_sum id (\<lambda>s. (nextNoteTime s, map timer_cb (timers s))))
     (and_then (startSequencer 2 demo_App) (run 2 edit_then_tick)) =
     Some (Inr (17 / 40,
                [SetCurrentStep 0, MidiNoteOn 36 100 note_step (1 / 8), SetCurrentStep 1,
                 MidiNoteOn 55 127 slide_step (1 / 4), SchedulerTick]))"
  by (simp add: step_values demo_values engine_values app_values Let_def numeral_2_eq_2)

subsection \<open>C4: percentage fields out of range\<close>




subsection \<open>C5: the voice while playing and while stopped\<close>

text \<open>
  C5, as amended. In every state the component reaches, at most one oscillator sounds,
  it is the one the engine refers to, and there is none while the transport is stopped.
  The oscillator is created by the first trigger of an active step that finds none (not
  by the transition to Playing: triggers of inactive steps create nothing), every later
  trigger reuses it, and \<open>stop\<close> releases it. The filter and the amplitude gate are made
  once with the engine and \<open>stop\<close> leaves them in place.
\<close>

theorem C5_one_oscillator_created_lazily:
  assumes "run fuel acts (initial_App p0 pat0) = Some (Inr s)"
  shows "length (ctx_sounding (audioEngine s)) \<le> 1 \<and>
         ctx_sounding (audioEngine s) = (case osc (audioEngine s) of None \<Rightarrow> [] | Some n \<Rightarrow> [osc_id n]) \<and>
         (playState s = STOPPED \<longrightarrow> osc (audioEngine s) = None \<and> ctx_sounding (audioEngine s) = []) \<and>
         (osc (audioEngine s) = Some n \<longrightarrow>
            map_option osc_id (osc (scheduleStep step nextStep time p dur (audioEngine s))) =
              Some (osc_id n) \<and>
            ctx_sounding (scheduleStep step nextStep time p dur (audioEngine s)) = [osc_id n] \<and>
            ctx_created (scheduleStep step nextStep time p dur (audioEngine s)) =
              ctx_created (audioEngine s)) \<and>
         (osc (audioEngine s) = None \<and> active step \<longrightarrow>
            map_option osc_id (osc (scheduleStep step nextStep time p dur (audioEngine s))) =
              Some (ctx_created (audioEngine s)) \<and>
            ctx_sounding (scheduleStep step nextStep time p dur (audioEngine s)) =
              [ctx_created (audioEngine s)] \<and>
            ctx_created (scheduleStep step nextStep time p dur (audioEngine s)) =
              Suc (ctx_created (audioEngine s))) \<and>
         (osc (audioEngine s) = None \<and> \<not> active step \<longrightarrow>
            osc (scheduleStep step nextStep time p dur (audioEngine s)) = None \<and>
            ctx_sounding (scheduleStep step nextStep time p dur (audioEngine s)) = []) \<and>
         osc (stop (audioEngine s)) = None \<and> ctx_sounding (stop (audioEngine s)) = [] \<and>
         filter_frequency (stop (audioEngine s)) = filter_frequency (audioEngine s) \<and>
         filter_Q (stop (audioEngine s)) = filter_Q (audioEngine s)"
proof -
  let ?eng = "audioEngine s"
  let ?e = "scheduleStep step nextStep time p dur ?eng"
  have inv: "app_inv s" using assms by (rule reachable_inv)
  then have v: "voice_inv ?eng" by (simp add: app_inv_def)
  then have len: "length (ctx_sounding ?eng) \<le> 1"
    by (simp add: voice_inv_def split: option.splits)
  have stopped: "osc ?eng = None \<and> ctx_sounding ?eng = []" if "playState s = STOPPED"
    using that inv v by (simp add: app_inv_def voice_inv_def)
  have reuse: "map_option osc_id (osc ?e) = Some (osc_id n) \<and> ctx_sounding ?e = [osc_id n] \<and>
               ctx_created ?e = ctx_created ?eng"
    if "osc ?eng = Some n"
    using that v
    by (cases "active step")
       (simp_all add: scheduleStep_inactive scheduleStep_osc scheduleStep_ctx_created
          scheduleStep_ctx_sounding Let_def voice_inv_def)
  have create: "map_option osc_id (osc ?e) = Some (ctx_created ?eng) \<and>
                ctx_sounding ?e = [ctx_created ?eng] \<and> ctx_created ?e = Suc (ctx_created ?eng)"
    if "osc ?eng = None" "active step"
    using that v
    by (simp add: scheduleStep_osc scheduleStep_ctx_created scheduleStep_ctx_sounding Let_def
          createOscillator_def voice_inv_def)
  have none: "osc ?e = None \<and> ctx_sounding ?e = []" if "osc ?eng = None" "\<not> active step"
    using that v by (simp add: scheduleStep_inactive voice_inv_def)
  show ?thesis
    using v [unfolded voice_inv_def] len stopped reuse create none stop_releases [OF v]
      stop_keeps_filter [of ?eng]
    by blast
qed

theorem C5_one_oscillator_created_lazily_witness:
  "run 2 demo_actions (initial_App demo_params demo_pattern) = Some (Inr demo_playing) \<and>
   map_option osc_id (osc (audioEngine demo_playing)) = Some 0 \<and>
   ctx_sounding (audioEngine demo_playing) = [0] \<and>
   map_option osc_id (osc (scheduleStep note_step (Some rest_step) 1 demo_params (1 / 8)
     (audioEngine demo_playing))) = Some 0 \<and>
   ctx_created (scheduleStep note_step (Some rest_step) 1 demo_params (1 / 8) (audioEngine demo_playing)) = 1 \<and>
   run 2 (demo_actions @ [StopSequencer]) (initial_App demo_params demo_pattern) = Some (Inr demo_stopped) \<and>
   playState demo_stopped = STOPPED \<and>
   osc (audioEngine demo_stopped) = None \<and>
   map_option osc_id (osc (scheduleStep note_step (Some rest_step) 1 demo_params (1 / 8)
     (audioEngine demo_stopped))) = Some 1 \<and>
   osc (scheduleStep rest_step (Some note_step) 1 demo_params (1 / 8) (audioEngine demo_stopped)) = None"
proof -
  have a: "active note_step" "\<not> active rest_step" by (simp_all add: note_step_def rest_step_def)
  have e: "map_option osc_id (osc (audioEngine demo_playing)) = Some 0"
    "ctx_created (audioEngine demo_playing) = 1"
    by (simp_all add: demo_playing_def step_values demo_values engine_values app_values Let_def
          numeral_2_eq_2)
  then obtain n where n: "osc (audioEngine demo_playing) = Some n" "osc_id n = 0" by auto
  have st: "playState demo_stopped = STOPPED" using demo_stopped_fields by simp
  have c: "ctx_created (audioEngine demo_stopped) = 1"
    using e(2) stop_keeps_filter [of "audioEngine demo_playing"]
    by (simp add: demo_stopped_def stopSequencer_def Let_def clearTimeout_def split: option.splits)
  show ?thesis
    using C5_one_oscillator_created_lazily [OF run_demo_playing, where step = note_step
        and nextStep = "Some rest_step" and time = 1 and p = demo_params and dur = "1 / 8" and n = n]
      C5_one_oscillator_created_lazily [OF run_demo_stopped, where step = note_step
        and nextStep = "Some rest_step" and time = 1 and p = demo_params and dur = "1 / 8"]
      C5_one_oscillator_created_lazily [OF run_demo_stopped, where step = rest_step
        and nextStep = "Some note_step" and time = 1 and p = demo_params and dur = "1 / 8"]
    by (simp add: a e n st c run_demo_playing run_demo_stopped)
qed

text \<open>
  The claim as it was stated fails: with a pattern whose steps are all switched off, the
  transport is Playing after the start and no oscillator exists.
\<close>

theorem C5_counterexample:
  "map_option (map_sum id (\<lambda>s. (playState s, osc (audioEngine s), ctx_sounding (audioEngine s))))
     (run 2 [StartSequencer] (initial_App demo_params silent_pattern)) =
     Some (Inr (PLAYING, None, []))"
  by (simp add: perform_def and_then_def step_values demo_values engine_values app_values Let_def
        numeral_2_eq_2)

subsection \<open>C6: advancing the cursor\<close>

text \<open>
  C6, as amended. In every state the component reaches the step index lies between 0 and
  15; an advance sets it to \<open>(index + 1) mod 16\<close>, which lies between 0 and 15 again and
  is 0 after 15, and \<open>N\<close> advances set it to \<open>(index + N) mod 16\<close>. For a tempo between 60
  and 200, read at every advance, the advance adds \<open>60 / tempo / 4\<close> to \<open>nextNoteTime\<close> in
  double precision: the increment is the double nearest \<open>60 / tempo\<close> divided by 4, within
  a relative error of \<open>2 ^ - 53\<close> of \<open>15 / tempo\<close>, and the new \<open>nextNoteTime\<close> is the double
  nearest the sum; an advance made after the tempo changed takes its increment from the
  new tempo and leaves the earlier sum as it was. The sums are exact in exact arithmetic
  only: there \<open>N\<close> advances add \<open>N * (15 / tempo)\<close>, and on the machine, from a start that
  is not negative, after \<open>k\<close> advances at one tempo \<open>nextNoteTime\<close> lies between
  \<open>(1 - 2 ^ - 53) ^ (k + 1)\<close> and \<open>(1 + 2 ^ - 53) ^ (k + 1)\<close> times
  \<open>start + k * (15 / tempo)\<close>, and is finite, for every \<open>k\<close> up to an \<open>N\<close> whose upper bound
  stays below \<open>2 ^ 1024\<close>.
\<close>

theorem C6_cursor_advance:
  assumes "run fuel acts (initial_App p0 pat0) = Some (Inr s)"
    and "60 \<le> tempo (paramsRef s)" and "tempo (paramsRef s) \<le> 200"
    and "0 \<le> nextNoteTime s"
    and "(1 + 1 / 2 ^ 53) ^ (N + 1) * (nextNoteTime s + real N * (15 / tempo (paramsRef s)))
           < 2 ^ 1024"
  shows "0 \<le> currentStepRef s \<and> currentStepRef s \<le> 15 \<and>
         currentStepRef (nextNote_f64 s) = (currentStepRef s + 1) mod 16 \<and>
         0 \<le> currentStepRef (nextNote_f64 s) \<and> currentStepRef (nextNote_f64 s) \<le> 15 \<and>
         (currentStepRef s = 15 \<longrightarrow> currentStepRef (nextNote_f64 s) = 0) \<and>
         currentStepRef ((nextNote_f64 ^^ N) s) = (currentStepRef s + int N) mod 16 \<and>
         nextNoteTime (nextNote_f64 s) =
           f64 (nextNoteTime s + f64 (60 / tempo (paramsRef s)) / 4) \<and>
         \<bar>f64 (60 / tempo (paramsRef s)) / 4 - 15 / tempo (paramsRef s)\<bar>
           \<le> 15 / tempo (paramsRef s) / 2 ^ 53 \<and>
         nextNoteTime (nextNote_f64 ((nextNote_f64 s)\<lparr>paramsRef := p'\<rparr>)) =
           f64 (nextNoteTime (nextNote_f64 s) + f64 (f64 (60 / tempo p') / 4)) \<and>
         nextNoteTime ((nextNote ^^ N) s) = nextNoteTime s + real N * (15 / tempo (paramsRef s)) \<and>
         (\<forall>k\<le>N.
            (1 - 1 / 2 ^ 53) ^ (k + 1) * (nextNoteTime s + real k * (15 / tempo (paramsRef s)))
              \<le> nextNoteTime ((nextNote_f64 ^^ k) s) \<and>
            nextNoteTime ((nextNote_f64 ^^ k) s)
              \<le> (1 + 1 / 2 ^ 53) ^ (k + 1) * (nextNoteTime s + real k * (15 / tempo (paramsRef s))) \<and>
            nextNoteTime ((nextNote_f64 ^^ k) s) < 2 ^ 1024)"
proof -
  define c where "c = 15 / tempo (paramsRef s)"
  define t where "t = nextNoteTime s"
  have idx: "index_in_bar s"
    using assms(1) by (rule reachable_index)
  then have r: "0 \<le> currentStepRef s" "currentStepRef s \<le> 15"
    by (simp_all add: index_in_bar_def STEPS_PER_BAR_def)
  have one: "currentStepRef (nextNote_f64 s) = (currentStepRef s + 1) mod 16"
    using r(1) by (simp add: nextNote_f64_fields smod_16_nonneg)
  have r1: "0 \<le> currentStepRef (nextNote_f64 s)" "currentStepRef (nextNote_f64 s) \<le> 15"
    using index_in_bar_nextNote_f64 [OF idx] by (simp_all add: index_in_bar_def STEPS_PER_BAR_def)
  have wrap: "currentStepRef s = 15 \<longrightarrow> currentStepRef (nextNote_f64 s) = 0"
    using one by simp
  have many: "currentStepRef ((nextNote_f64 ^^ N) s) = (currentStepRef s + int N) mod 16"
    using nextNote_f64_index_funpow [OF idx, of N] by simp
  have time1: "nextNoteTime (nextNote_f64 s) =
                 f64 (nextNoteTime s + f64 (60 / tempo (paramsRef s)) / 4)"
    by (simp only: nextNote_f64_fields f64_step(1) [OF assms(2,3)])
  have "f64 (60 / tempo (paramsRef s)) / 4 - c \<le> c / 2 ^ 53"
    "- (f64 (60 / tempo (paramsRef s)) / 4 - c) \<le> c / 2 ^ 53"
    using f64_step(2,3) [OF assms(2,3)] by (simp_all add: c_def algebra_simps)
  then have step: "\<bar>f64 (60 / tempo (paramsRef s)) / 4 - c\<bar> \<le> c / 2 ^ 53"
    by (simp only: abs_le_iff)
  have change: "nextNoteTime (nextNote_f64 ((nextNote_f64 s)\<lparr>paramsRef := p'\<rparr>)) =
           f64 (nextNoteTime (nextNote_f64 s) + f64 (f64 (60 / tempo p') / 4))"
    by (simp add: nextNote_f64_fields)
  have exact: "nextNoteTime ((nextNote ^^ N) s) = t + real N * c"
    using nextNote_funpow [of N s] by (simp add: t_def c_def)
  have c0: "0 \<le> c" using assms(2) by (simp add: c_def)
  have t0: "0 \<le> t" using assms(4) by (simp add: t_def)
  have drift: "(1 - 1 / 2 ^ 53) ^ (k + 1) * (t + real k * c) \<le> nextNoteTime ((nextNote_f64 ^^ k) s) \<and>
            nextNoteTime ((nextNote_f64 ^^ k) s) \<le> (1 + 1 / 2 ^ 53) ^ (k + 1) * (t + real k * c) \<and>
            nextNoteTime ((nextNote_f64 ^^ k) s) < 2 ^ 1024" if k: "k \<le> N" for k
  proof -
    have b: "(1 - 1 / 2 ^ 53) ^ (k + 1) * (t + real k * c) \<le> nextNoteTime ((nextNote_f64 ^^ k) s)"
      "nextNoteTime ((nextNote_f64 ^^ k) s) \<le> (1 + 1 / 2 ^ 53) ^ (k + 1) * (t + real k * c)"
      using nextNote_f64_drift [OF assms(2,3,4), of k] by (simp_all add: t_def c_def)
    have "((1::real) + 1 / 2 ^ 53) ^ (k + 1) \<le> (1 + 1 / 2 ^ 53) ^ (N + 1)"
      using k by (intro power_increasing) simp_all
    moreover have "t + real k * c \<le> t + real N * c"
      using k c0 by (simp add: mult_right_mono)
    moreover have "0 \<le> t + real k * c" using t0 c0 by simp
    ultimately have "(1 + 1 / 2 ^ 53) ^ (k + 1) * (t + real k * c) \<le>
        (1 + 1 / 2 ^ 53) ^ (N + 1) * (t + real N * c)"
      by (intro mult_mono) simp_all
    also have "\<dots> < 2 ^ 1024" using assms(5) by (simp add: t_def c_def)
    finally have "nextNoteTime ((nextNote_f64 ^^ k) s) < 2 ^ 1024" using b(2) by linarith
    then show ?thesis using b by simp
  qed
  show ?thesis
    using r one r1 wrap many time1 step change exact drift
    unfolding c_def t_def by blast
qed

theorem C6_cursor_advance_witness:
  "run 2 demo_actions (initial_App demo_params demo_pattern) = Some (Inr demo_playing) \<and>
   tempo (paramsRef demo_playing) = 120 \<and> nextNoteTime demo_playing = 7 / 40 \<and>
   (1 + 1 / 2 ^ 53) ^ (16 + 1) * (7 / 40 + real 16 * (15 / 120)) < (2::real) ^ 1024 \<and>
   currentStepRef demo_playing = 1 \<and>
   currentStepRef (nextNote_f64 demo_playing) = 2 \<and>
   currentStepRef ((nextNote_f64 ^^ 16) demo_playing) = 1 \<and>
   nextNoteTime (nextNote_f64 demo_playing) = f64 (7 / 40 + f64 (60 / 120) / 4) \<and>
   nextNoteTime ((nextNote ^^ 16) demo_playing) = 7 / 40 + 2 \<and>
   (1 - 1 / 2 ^ 53) ^ 17 * (7 / 40 + 2) \<le> nextNoteTime ((nextNote_f64 ^^ 16) demo_playing) \<and>
   nextNoteTime ((nextNote_f64 ^^ 16) demo_playing) \<le> (1 + 1 / 2 ^ 53) ^ 17 * (7 / 40 + 2) \<and>
   nextNoteTime ((nextNote_f64 ^^ 16) demo_playing) < 2 ^ 1024"
proof -
  have f: "nextNoteTime demo_playing = 7 / 40" "currentStepRef demo_playing = 1"
    "tempo (paramsRef demo_playing) = 120"
    using demo_playing_cursor by (simp_all add: demo_params_def)
  have a: "60 \<le> tempo (paramsRef demo_playing)" "tempo (paramsRef demo_playing) \<le> 200"
    "0 \<le> nextNoteTime demo_playing"
    by (simp_all add: f)
  have e: "(1 + 1 / 2 ^ 53) ^ (16 + 1) * (7 / 40 + real 16 * (15 / 120)) < (2::real) ^ 1024"
  proof -
    have "((1::real) + 1 / 2 ^ 53) ^ (16 + 1) \<le> 2 ^ (16 + 1)"
      by (intro power_mono) simp_all
    then have "((1::real) + 1 / 2 ^ 53) ^ (16 + 1) * (7 / 40 + real 16 * (15 / 120)) \<le>
        2 ^ (16 + 1) * (7 / 40 + real 16 * (15 / 120))"
      by (intro mult_right_mono) simp_all
    also have "\<dots> < 2 ^ 1024" by simp
    finally show ?thesis .
  qed
  have fin: "(1 + 1 / 2 ^ 53) ^ (16 + 1) *
      (nextNoteTime demo_playing + real 16 * (15 / tempo (paramsRef demo_playing))) < 2 ^ 1024"
    using e by (simp only: f)
  note th = C6_cursor_advance [OF run_demo_playing a fin, of demo_params]
  have k: "(1 - 1 / 2 ^ 53) ^ (16 + 1) *
             (nextNoteTime demo_playing + real 16 * (15 / tempo (paramsRef demo_playing)))
             \<le> nextNoteTime ((nextNote_f64 ^^ 16) demo_playing) \<and>
           nextNoteTime ((nextNote_f64 ^^ 16) demo_playing)
             \<le> (1 + 1 / 2 ^ 53) ^ (16 + 1) *
                (nextNoteTime demo_playing + real 16 * (15 / tempo (paramsRef demo_playing))) \<and>
           nextNoteTime ((nextNote_f64 ^^ 16) demo_playing) < 2 ^ 1024"
    using th by blast
  have i: "currentStepRef (nextNote_f64 demo_playing) = (currentStepRef demo_playing + 1) mod 16"
    "currentStepRef ((nextNote_f64 ^^ 16) demo_playing) = (currentStepRef demo_playing + int 16) mod 16"
    "nextNoteTime (nextNote_f64 demo_playing) =
       f64 (nextNoteTime demo_playing + f64 (60 / tempo (paramsRef demo_playing)) / 4)"
    "nextNoteTime ((nextNote ^^ 16) demo_playing) =
       nextNoteTime demo_playing + real 16 * (15 / tempo (paramsRef demo_playing))"
    using th by blast+
  have k': "(1 - 1 / 2 ^ 53) ^ 17 * (7 / 40 + 2) \<le> nextNoteTime ((nextNote_f64 ^^ 16) demo_playing)"
    "nextNoteTime ((nextNote_f64 ^^ 16) demo_playing) \<le> (1 + 1 / 2 ^ 53) ^ 17 * (7 / 40 + 2)"
    "nextNoteTime ((nextNote_f64 ^^ 16) demo_playing) < 2 ^ 1024"
    using k by (simp_all add: f)
  have i': "currentStepRef (nextNote_f64 demo_playing) = 2"
    "currentStepRef ((nextNote_f64 ^^ 16) demo_playing) = 1"
    "nextNoteTime (nextNote_f64 demo_playing) = f64 (7 / 40 + f64 (60 / 120) / 4)"
    "nextNoteTime ((nextNote ^^ 16) demo_playing) = 7 / 40 + 2"
    using i by (simp_all only: f) simp_all
  show ?thesis
    using k' i' e f run_demo_playing by blast
qed

text \<open>
  The claim as it was stated fails on the machine. With the default tempo 120 and the
  audio clock at 0, \<open>startSequencer\<close> sets the cursor to the double nearest 0.05; the
  increment \<open>60 / 120 / 4 = 0.125\<close> is a double, but the sum is not, and the advance stores
  the neighbouring double: the cursor has moved by \<open>0.125 - 2 ^ - 56\<close>, not by
  \<open>15 / tempo\<close>.
\<close>

theorem C6_counterexample:
  "tempo (paramsRef f64_started) = 120 \<and>
   nextNoteTime f64_started = 3602879701896397 / 2 ^ 56 \<and>
   f64 (f64 (60 / 120) / 4) = 15 / 120 \<and>
   nextNoteTime (nextNote_f64 f64_started) = 12610078956637388 / 2 ^ 56 \<and>
   nextNoteTime (nextNote_f64 f64_started) - nextNoteTime f64_started = 15 / 120 - 1 / 2 ^ 56 \<and>
   nextNoteTime (nextNote_f64 f64_started) \<noteq>
     nextNoteTime f64_started + 15 / tempo (paramsRef f64_started)"
proof -
  define a :: real where "a = 3602879701896397 / 2 ^ 56"
  define b :: real where "b = 12610078956637388 / 2 ^ 56"
  define h :: real where "h = 15 / 120"
  have t: "tempo (paramsRef f64_started) = 120"
    by (simp add: f64_started_def initial_App_def INITIAL_PARAMS_def)
  have e1: "f64 0.05 = a"
    unfolding a_def
    by (simp add: f64_def f64_exponent_def round_half_even_def pow2_def Let_def compute_bitlen)
  have e2: "f64 (0 + a) = a"
    unfolding a_def
    by (simp add: f64_def f64_exponent_def round_half_even_def pow2_def Let_def compute_bitlen)
  have e3: "f64 (f64 (60 / 120) / 4) = h"
    unfolding h_def
    by (simp add: f64_def f64_exponent_def round_half_even_def pow2_def Let_def compute_bitlen)
  have e4: "f64 (a + h) = b"
    unfolding a_def b_def h_def
    by (simp add: f64_def f64_exponent_def round_half_even_def pow2_def Let_def compute_bitlen)
  have "nextNoteTime f64_started = f64 (0 + f64 0.05)"
    by (simp add: f64_started_def)
  then have n: "nextNoteTime f64_started = a"
    by (simp only: e1 e2)
  have "nextNoteTime (nextNote_f64 f64_started) =
          f64 (nextNoteTime f64_started + f64 (f64 (60 / tempo (paramsRef f64_started)) / 4))"
    by (rule nextNote_f64_fields(2))
  then have m: "nextNoteTime (nextNote_f64 f64_started) = b"
    by (simp only: t n e3 e4)
  have v: "b - a = h - 1 / 2 ^ 56" "b \<noteq> a + h"
    by (simp_all add: a_def b_def h_def)
  have "(120::real) = 120 \<and> a = a \<and> h = h \<and> b = b \<and> b - a = h - 1 / 2 ^ 56 \<and> b \<noteq> a + h"
    using v by simp
  then show ?thesis
    unfolding t n m e3 unfolding a_def b_def h_def .
qed

subsection \<open>C7: a slide into an active step\<close>

text \<open>
  C7, as amended. For every active step with slide set whose following step is active,
  the trigger leaves on the oscillator's frequency timeline, as the event in force at
  \<open>trigger + stepDuration\<close>, the end of a linear ramp to the following step's frequency
  \<open>440 * 2 powr ((36 + note + octave * 12 - 69) / 12)\<close>. On the amplitude gate the only
  event at or after the trigger time is the one that opens the gate at the effective
  volume; and once the following step has been triggered at \<open>trigger + stepDuration\<close>,
  the gate's events within the step are that opening and the following step's opening:
  nothing closes the gate in between.
\<close>

theorem C7_slide_to_active_step:
  assumes "active step" and "slide step" and "nextStep = Some n" and "active n"
  shows "(\<exists>o1. osc (scheduleStep step nextStep time p dur eng) = Some o1 \<and>
               last_event_upto (time + dur) (frequency o1) =
                 Some (LinearRampToValueAtTime
                         (440 * 2 powr ((real_of_int (36 + step_note n + octave n * 12) - 69) / 12))
                         (time + dur))) \<and>
         events_from time (ampGain_gain (scheduleStep step nextStep time p dur eng)) =
           [SetValueAtTime (activeVol step p) time] \<and>
         (0 < dur \<and> 0 < dur' \<longrightarrow>
            filter (\<lambda>x. time \<le> event_time x \<and> event_time x \<le> time + dur)
              (events (ampGain_gain
                 (scheduleStep n nextStep' (time + dur) p' dur'
                    (scheduleStep step nextStep time p dur eng)))) =
              [SetValueAtTime (activeVol step p) time, SetValueAtTime (activeVol n p') (time + dur)])"
proof -
  let ?ramp = "LinearRampToValueAtTime (midi_frequency (baseMidi n)) (time + dur)"
  have "last_event_upto (time + dur) (schedule ?ramp q) = Some ?ramp" for q
    using last_event_upto_schedule_same [of ?ramp q] by simp
  then have A: "\<exists>o1. osc (scheduleStep step nextStep time p dur eng) = Some o1 \<and>
               last_event_upto (time + dur) (frequency o1) = Some ?ramp"
    using assms by (simp add: scheduleStep_osc Let_def)
  have B: "events_from time (ampGain_gain (scheduleStep step nextStep time p dur eng)) =
           [SetValueAtTime (activeVol step p) time]"
    using assms(1,2) by (rule gain_events_from_slide)
  have C: "filter (\<lambda>x. time \<le> event_time x \<and> event_time x \<le> time + dur)
              (events (ampGain_gain
                 (scheduleStep n nextStep' (time + dur) p' dur'
                    (scheduleStep step nextStep time p dur eng)))) =
              [SetValueAtTime (activeVol step p) time, SetValueAtTime (activeVol n p') (time + dur)]"
    if d: "0 < dur" "0 < dur'"
  proof -
    have g1: "events (ampGain_gain (scheduleStep step nextStep time p dur eng)) =
                filter (\<lambda>x. event_time x < time) (events (ampGain_gain eng)) @
                [SetValueAtTime (activeVol step p) time]"
      using gain_events_after_trigger [OF assms(1), of dur nextStep time p eng] d(1) assms(2)
      by simp
    show ?thesis
      using d by (simp add: gain_events_after_trigger [OF assms(4)] g1 filter_empty_conv)
  qed
  have "midi_frequency (baseMidi n) =
          440 * 2 powr ((real_of_int (36 + step_note n + octave n * 12) - 69) / 12)"
    by (simp add: midi_frequency_def baseMidi_def)
  with A B C show ?thesis by simp
qed

theorem C7_slide_to_active_step_witness:
  "active slide_step \<and> slide slide_step \<and> active note_step \<and>
   (\<exists>o1. osc (scheduleStep slide_step (Some note_step) 1 demo_params (1 / 8) new_AudioEngine) = Some o1 \<and>
         last_event_upto (1 + 1 / 8) (frequency o1) =
           Some (LinearRampToValueAtTime (440 * 2 powr ((36 - 69) / 12)) (1 + 1 / 8))) \<and>
   events_from 1 (ampGain_gain (scheduleStep slide_step (Some note_step) 1 demo_params (1 / 8) new_AudioEngine)) =
     [SetValueAtTime 0.95 1] \<and>
   filter (\<lambda>x. 1 \<le> event_time x \<and> event_time x \<le> 1 + 1 / 8)
     (events (ampGain_gain
        (scheduleStep note_step (Some rest_step) (1 + 1 / 8) demo_params (1 / 8)
           (scheduleStep slide_step (Some note_step) 1 demo_params (1 / 8) new_AudioEngine)))) =
     [SetValueAtTime 0.95 1, SetValueAtTime 0.8 (1 + 1 / 8)]"
proof -
  have a: "active slide_step" "slide slide_step" "active note_step"
    by (simp_all add: slide_step_def note_step_def)
  have v: "activeVol slide_step demo_params = 0.95" "activeVol note_step demo_params = 0.8"
    by (simp_all add: activeVol_def accentIntensity_def slide_step_def note_step_def demo_params_def)
  have n: "step_note note_step = 0" "octave note_step = 0" by (simp_all add: note_step_def)
  show ?thesis
    using C7_slide_to_active_step [OF a(1,2) refl a(3), where time = 1 and dur = "1 / 8"
        and p = demo_params and eng = new_AudioEngine and dur' = "1 / 8" and p' = demo_params
        and nextStep' = "Some rest_step"]
    by (simp add: a v n)
qed

text \<open>
  The claim as it was stated does not ask the step itself to be active. A step that is
  switched off keeps its slide flag, and triggering it only drives the amplitude to zero
  at the trigger time: no frequency is scheduled at all.
\<close>

theorem C7_counterexample:
  "slide slide_rest_step \<and> active note_step \<and>
   scheduleStep_calls slide_rest_step (Some note_step) 1 demo_params (1 / 8) =
     [Schedule AmpGain (SetTargetAtTime 0 1 0.01)] \<and>
   timeline OscFrequency (scheduleStep slide_rest_step (Some note_step) 1 demo_params (1 / 8) new_AudioEngine) = [] \<and>
   events_from 1 (ampGain_gain (scheduleStep slide_rest_step (Some note_step) 1 demo_params (1 / 8) new_AudioEngine)) =
     [SetTargetAtTime 0 1 0.01]"
proof -
  have a: "\<not> active slide_rest_step" by (simp add: slide_rest_step_def)
  show ?thesis
    by (simp add: scheduleStep_inactive [OF a] timeline_simps events_from_def schedule_def
          insert_event_def new_AudioEngine_def scheduleStep_calls_def a)
       (simp add: slide_rest_step_def note_step_def)
qed

subsection \<open>C8: the pitch set at trigger time\<close>

text \<open>
  C8. For every active step, the first event the trigger schedules on the oscillator
  frequency is a set-value at the trigger time, of value
  \<open>440 * 2 powr ((baseNote - 69) / 12)\<close> with \<open>baseNote = 36 + note + octave * 12\<close>, and
  the event is on the oscillator's timeline afterwards; when the step duration is
  positive it is the event in force at the trigger time. A step with note 0 and octave 0
  has \<open>baseNote = 36\<close> and a frequency between 65.40 and 65.42 Hz, and at tempo 120 the
  step duration is 0.125 s.
\<close>

theorem C8_pitch_at_trigger:
  assumes "active step"
  shows "hd (scheduled_on OscFrequency (scheduleStep_calls step nextStep time p dur)) =
           SetValueAtTime
             (440 * 2 powr ((real_of_int (36 + step_note step + octave step * 12) - 69) / 12)) time \<and>
         SetValueAtTime
             (440 * 2 powr ((real_of_int (36 + step_note step + octave step * 12) - 69) / 12)) time
           \<in> set (timeline OscFrequency (scheduleStep step nextStep time p dur eng)) \<and>
         (0 < dur \<longrightarrow>
            (\<exists>n. osc (scheduleStep step nextStep time p dur eng) = Some n \<and>
                 last_event_upto time (frequency n) =
                   Some (SetValueAtTime
                           (440 * 2 powr ((real_of_int (36 + step_note step + octave step * 12) - 69) / 12))
                           time))) \<and>
         baseMidi step = 36 + step_note step + octave step * 12 \<and>
         (step_note step = 0 \<and> octave step = 0 \<longrightarrow>
            baseMidi step = 36 \<and>
            65.40 < midi_frequency (baseMidi step) \<and> midi_frequency (baseMidi step) < 65.42) \<and>
         (tempo p = 120 \<longrightarrow> duration p = 0.125)"
proof -
  let ?f = "SetValueAtTime (midi_frequency (baseMidi step)) time"
  have first: "hd (scheduled_on OscFrequency (scheduleStep_calls step nextStep time p dur)) = ?f"
    using assms by (simp add: scheduled_on_def calls_on_active)
  have mem: "?f \<in> set (timeline OscFrequency (scheduleStep step nextStep time p dur eng))"
    using assms
    by (simp add: timeline_simps scheduleStep_osc Let_def set_events_schedule split: option.splits)
  have set_at: "last_event_upto time (schedule ?f q) = Some ?f" for q
    using last_event_upto_schedule_same [of ?f q] by simp
  have ramp: "last_event_upto time (schedule (LinearRampToValueAtTime v (time + dur)) q) =
                last_event_upto time q" if "0 < dur" for v q
    using that by (simp add: last_event_upto_schedule_later)
  have force: "\<exists>n. osc (scheduleStep step nextStep time p dur eng) = Some n \<and>
             last_event_upto time (frequency n) = Some ?f" if "0 < dur"
    using assms that by (simp add: scheduleStep_osc Let_def set_at ramp split: option.splits)
  have formula: "midi_frequency (baseMidi step) =
      440 * 2 powr ((real_of_int (36 + step_note step + octave step * 12) - 69) / 12)"
    by (simp add: midi_frequency_def baseMidi_def)
  have c2: "step_note step = 0 \<and> octave step = 0 \<longrightarrow>
            baseMidi step = 36 \<and>
            65.40 < midi_frequency (baseMidi step) \<and> midi_frequency (baseMidi step) < 65.42"
    using midi_frequency_36 by (simp add: baseMidi_def)
  have tempo: "tempo p = 120 \<longrightarrow> duration p = 0.125"
    by (simp add: duration_def)
  show ?thesis
    using first mem force c2 tempo unfolding formula by (simp add: baseMidi_def)
qed

theorem C8_pitch_at_trigger_witness:
  "active note_step \<and>
   hd (scheduled_on OscFrequency (scheduleStep_calls note_step (Some rest_step) 1 demo_params (1 / 8))) =
     SetValueAtTime (440 * 2 powr ((36 - 69) / 12)) 1 \<and>
   (\<exists>n. osc (scheduleStep note_step (Some rest_step) 1 demo_params (1 / 8) new_AudioEngine) = Some n \<and>
        last_event_upto 1 (frequency n) = Some (SetValueAtTime (440 * 2 powr ((36 - 69) / 12)) 1)) \<and>
   baseMidi note_step = 36 \<and>
   65.40 < midi_frequency (baseMidi note_step) \<and> midi_frequency (baseMidi note_step) < 65.42 \<and>
   duration demo_params = 0.125"
proof -
  have a: "active note_step" by (simp add: note_step_def)
  show ?thesis
    using C8_pitch_at_trigger [OF a, where nextStep = "Some rest_step" and time = 1
        and p = demo_params and dur = "1 / 8" and eng = new_AudioEngine]
    by (simp add: note_step_def demo_params_def baseMidi_def)
qed

subsection \<open>C9: the Note On bytes\<close>

text \<open>
  C9. When \<open>scheduleNote\<close> meets an active step it arms a timer whose callback carries the
  note \<open>36 + note + octave * 12\<close> and the velocity 127 (accent) or 100 (no accent); when
  that callback runs while an output port is selected, the bytes sent are
  \<open>[0x90, clamp(36 + note + octave * 12, 0, 127), velocity]\<close>.
\<close>

theorem C9_note_on_bytes:
  assumes "at_index (patternRef s) i = Some step"
    and "active step"
    and "selected_output (midiService s2) = Some out"
  shows "\<exists>s1 s3.
           scheduleNote i t s = Inr s1 \<and>
           timer_cb (last (timers s1)) =
             MidiNoteOn (36 + step_note step + octave step * 12) (if accent step then 127 else 100)
               step (duration (paramsRef s)) \<and>
           run_callback fuel (timer_cb (last (timers s1))) s2 = Some (Inr s3) \<and>
           midi_out s3 =
             midi_out s2 @
               [(out, [0x90, max 0 (min 127 (36 + step_note step + octave step * 12)),
                       if accent step then 127 else 100])]"
proof -
  obtain s1 where s1: "scheduleNote i t s = Inr s1"
    "timer_cb (last (timers s1)) =
       MidiNoteOn (36 + step_note step + octave step * 12) (if accent step then 127 else 100)
         step (duration (paramsRef s))"
    using scheduleNote_body_active [OF assms(1,2), of "paramsRef s" t s]
    by (auto simp: scheduleNote_def)
  obtain s3 where s3:
    "run_callback fuel (MidiNoteOn (36 + step_note step + octave step * 12)
        (if accent step then 127 else 100) step (duration (paramsRef s))) s2 = Some (Inr s3)"
    "midi_out s3 = midi_out s2 @
       [(out, [0x90, max 0 (min 127 (36 + step_note step + octave step * 12)),
               max 0 (min 127 (if accent step then 127 else 100))])]"
    using run_callback_MidiNoteOn [OF assms(3)] by blast
  have "max 0 (min 127 (if accent step then 127 else 100 :: int)) = (if accent step then 127 else 100)"
    by simp
  with s1 s3 show ?thesis by auto
qed

theorem C9_note_on_bytes_witness:
  "at_index (patternRef demo_App) 0 = Some note_step \<and> active note_step \<and>
   selected_output (midiService demo_App) = Some ''out-1'' \<and>
   (\<exists>s1 s3.
      scheduleNote 0 0.05 demo_App = Inr s1 \<and>
      timer_cb (last (timers s1)) = MidiNoteOn 36 100 note_step 0.125 \<and>
      run_callback 0 (timer_cb (last (timers s1))) demo_App = Some (Inr s3) \<and>
      midi_out s3 = [(''out-1'', [0x90, 36, 100])])"
proof -
  have a: "at_index (patternRef demo_App) 0 = Some note_step"
    by (simp add: demo_App_def initial_App_def demo_pattern_def at_index_def)
  have b: "active note_step" by (simp add: note_step_def)
  have c: "selected_output (midiService demo_App) = Some ''out-1''"
    by (simp add: demo_App_def initial_App_def selected_output_def)
  have d: "duration (paramsRef demo_App) = 0.125"
    by (simp add: demo_App_def initial_App_def demo_params_def duration_def)
  have e: "midi_out demo_App = []" by (simp add: demo_App_def initial_App_def)
  have f: "step_note note_step = 0" "octave note_step = 0" "\<not> accent note_step"
    by (simp_all add: note_step_def)
  show ?thesis
    using C9_note_on_bytes [OF a b c, where t = "0.05" and fuel = 0] a b c by (simp add: d e f)
qed

subsection \<open>C10: a slide into an inactive step\<close>

text \<open>
  C10. For every active step with slide set whose following step is inactive, the trigger
  schedules exactly one event on the oscillator frequency, the set-value at the trigger
  time, and no ramp; on the amplitude gate the only event at or after the trigger time
  opens the gate at the effective volume. When the following, inactive step is triggered
  at \<open>trigger + stepDuration\<close> (the step duration not being negative), the gate's events
  from the first trigger on are that opening and the move toward zero that starts at
  \<open>trigger + stepDuration\<close>.
\<close>

theorem C10_slide_to_inactive_step:
  assumes "active step" and "slide step" and "nextStep = Some n" and "\<not> active n"
  shows "scheduled_on OscFrequency (scheduleStep_calls step nextStep time p dur) =
           [SetValueAtTime (midi_frequency (baseMidi step)) time] \<and>
         events_from time (ampGain_gain (scheduleStep step nextStep time p dur eng)) =
           [SetValueAtTime (activeVol step p) time] \<and>
         (0 \<le> dur \<longrightarrow>
            events_from time
              (ampGain_gain (scheduleStep n nextStep' (time + dur) p' dur'
                 (scheduleStep step nextStep time p dur eng))) =
              [SetValueAtTime (activeVol step p) time, SetTargetAtTime 0 (time + dur) 0.01])"
proof -
  let ?e1 = "scheduleStep step nextStep time p dur eng"
  have A: "scheduled_on OscFrequency (scheduleStep_calls step nextStep time p dur) =
           [SetValueAtTime (midi_frequency (baseMidi step)) time]"
    using assms(1-4) by (simp add: scheduled_on_def calls_on_active)
  have B: "events_from time (ampGain_gain ?e1) = [SetValueAtTime (activeVol step p) time]"
    using assms(1,2) by (rule gain_events_from_slide)
  have C: "events_from time
           (ampGain_gain (scheduleStep n nextStep' (time + dur) p' dur' ?e1)) =
           [SetValueAtTime (activeVol step p) time, SetTargetAtTime 0 (time + dur) 0.01]"
    if d: "0 \<le> dur"
  proof -
    have g1: "events (ampGain_gain ?e1) =
                filter (\<lambda>x. event_time x < time) (events (ampGain_gain eng)) @
                [SetValueAtTime (activeVol step p) time]"
      using gain_events_after_trigger [OF assms(1) d, of nextStep time p eng] assms(2) by simp
    have g2: "events (schedule e (ampGain_gain ?e1)) = events (ampGain_gain ?e1) @ [e]"
      if "time + dur \<le> event_time e" for e
    proof (rule events_schedule_last)
      show "\<forall>x\<in>set (events (ampGain_gain ?e1)). event_time x \<le> event_time e"
        using d that by (auto simp: g1)
    qed
    show ?thesis
      using d by (simp add: scheduleStep_inactive [OF assms(4)] events_from_def g2 g1
          filter_empty_conv)
  qed
  from A B C show ?thesis by simp
qed

theorem C10_slide_to_inactive_step_witness:
  "active slide_step \<and> slide slide_step \<and> \<not> active rest_step \<and>
   scheduled_on OscFrequency (scheduleStep_calls slide_step (Some rest_step) 1 demo_params (1 / 8)) =
     [SetValueAtTime (midi_frequency 55) 1] \<and>
   events_from 1 (ampGain_gain (scheduleStep slide_step (Some rest_step) 1 demo_params (1 / 8) new_AudioEngine)) =
     [SetValueAtTime 0.95 1] \<and>
   events_from 1
     (ampGain_gain (scheduleStep rest_step (Some note_step) (1 + 1 / 8) demo_params (1 / 8)
        (scheduleStep slide_step (Some rest_step) 1 demo_params (1 / 8) new_AudioEngine))) =
     [SetValueAtTime 0.95 1, SetTargetAtTime 0 (1 + 1 / 8) 0.01]"
proof -
  have a: "active slide_step" "slide slide_step" "\<not> active rest_step"
    by (simp_all add: slide_step_def rest_step_def)
  have v: "activeVol slide_step demo_params = 0.95" "baseMidi slide_step = 55"
    by (simp_all add: activeVol_def accentIntensity_def baseMidi_def slide_step_def demo_params_def)
  show ?thesis
    using C10_slide_to_inactive_step [OF a(1,2) refl a(3), where time = 1 and dur = "1 / 8"
        and p = demo_params and eng = new_AudioEngine and dur' = "1 / 8" and p' = demo_params
        and nextStep' = "Some note_step"]
    by (simp add: a v)
qed

end
